theory Spec2Isabelle
  imports
    Main
    "HOL-Library.Sublist"
    "HOL-Library.Char_ord"
    "HOL-Library.List_Lexorder"
    "HOL-Library.AList"
begin

section \<open>Strings\<close>

text \<open>
  \<^verbatim>\<open>std::string\<close> is a byte string, modelled as \<^typ>\<open>string\<close>.  \<^verbatim>\<open>ToLower\<close> maps
  \<^verbatim>\<open>std::tolower\<close> over the bytes; the program never changes the locale, so this is the
  "C" locale, where exactly the bytes \<open>A\<close> .. \<open>Z\<close> (65 .. 90) move to \<open>a\<close> .. \<open>z\<close>.
\<close>

definition lower_char :: "char \<Rightarrow> char" where
  "lower_char c =
     (let n = (of_char c :: nat) in if 65 \<le> n \<and> n \<le> 90 then char_of (n + 32) else c)"

definition ToLower :: "string \<Rightarrow> string" where
  "ToLower s = map lower_char s"

text \<open>
  \<^verbatim>\<open>s.find(p) != std::string::npos\<close>: the needle \<open>p\<close> occurs in \<open>s\<close> at some offset.
  The empty needle is found at offset 0 of every string, the empty one included.
\<close>

fun found :: "string \<Rightarrow> string \<Rightarrow> bool" where
  "found [] p = (p = [])"
| "found (c # s) p = (prefix p (c # s) \<or> found s p)"

text \<open>\<^verbatim>\<open>Snippet(s, limit)\<close>: the first \<open>limit\<close> bytes of \<open>s\<close>.\<close>

definition kSnippetLen :: nat where
  "kSnippetLen = 500"

definition Snippet :: "string \<Rightarrow> nat \<Rightarrow> string" where
  "Snippet s limit = (if length s \<le> limit then s else take limit s)"

section \<open>Candidate ranker\<close>

text \<open>
  The test both rankers apply to a lower-cased discovered id \<open>dl\<close> and a lower-cased
  preferred name \<open>p\<close>: \<^verbatim>\<open>dl == p || dl.find(p) != npos\<close>.
\<close>

definition name_hit :: "string \<Rightarrow> string \<Rightarrow> bool" where
  "name_hit dl p = (dl = p \<or> found dl p)"

subsection \<open>ChooseModel\<close>

text \<open>
  The inner loop of \<^verbatim>\<open>ChooseModel\<close> runs an index over \<^verbatim>\<open>discovered\<close> and the vector
  \<^verbatim>\<open>lower\<close> of the same length; the model walks the two lists together.  \<open>Some d\<close> is
  the \<^verbatim>\<open>return discovered[i]\<close>, \<open>None\<close> is falling out of the loop.
\<close>

fun choose_scan :: "string list \<Rightarrow> string list \<Rightarrow> string \<Rightarrow> string option" where
  "choose_scan (d # ds) (l # ls) p = (if name_hit l p then Some d else choose_scan ds ls p)"
| "choose_scan _ _ p = None"

fun choose_prefs :: "string list \<Rightarrow> string list \<Rightarrow> string list \<Rightarrow> string option" where
  "choose_prefs discovered lower [] = None"
| "choose_prefs discovered lower (pref # prefs) =
     (case choose_scan discovered lower (ToLower pref) of
        Some d \<Rightarrow> Some d
      | None \<Rightarrow> choose_prefs discovered lower prefs)"

definition ChooseModel :: "string list \<Rightarrow> string list \<Rightarrow> string" where
  "ChooseModel discovered preferred =
     (case discovered of
        [] \<Rightarrow> []
      | front # _ \<Rightarrow>
          (case choose_prefs discovered (map ToLower discovered) preferred of
             Some d \<Rightarrow> d
           | None \<Rightarrow> front))"

subsection \<open>TopCandidates\<close>

text \<open>
  The loop state is the pair of \<^verbatim>\<open>out\<close> and \<^verbatim>\<open>used\<close>.  A loop yields \<open>Inl out\<close> when it
  executes \<^verbatim>\<open>return out\<close> and \<open>Inr\<close> of its state when it runs to its end.  In the first
  pass the size test stands after the \<^verbatim>\<open>if\<close>, so it is made for every discovered id,
  pushed or not; in the second pass it stands inside the \<^verbatim>\<open>if\<close>.
\<close>

fun top_inner ::
  "nat \<Rightarrow> string \<Rightarrow> string list \<Rightarrow> string list \<times> string set
     \<Rightarrow> string list + string list \<times> string set" where
  "top_inner max_count p [] st = Inr st"
| "top_inner max_count p (d # ds) (out, used) =
     (let st' = (if name_hit (ToLower d) p \<and> d \<notin> used
                 then (out @ [d], insert d used) else (out, used))
      in if length (fst st') \<ge> max_count then Inl (fst st')
         else top_inner max_count p ds st')"

fun top_preferred ::
  "nat \<Rightarrow> string list \<Rightarrow> string list \<Rightarrow> string list \<times> string set
     \<Rightarrow> string list + string list \<times> string set" where
  "top_preferred max_count discovered [] st = Inr st"
| "top_preferred max_count discovered (pref # prefs) st =
     (case top_inner max_count (ToLower pref) discovered st of
        Inl out \<Rightarrow> Inl out
      | Inr st' \<Rightarrow> top_preferred max_count discovered prefs st')"

fun top_fill :: "nat \<Rightarrow> string list \<Rightarrow> string list \<times> string set \<Rightarrow> string list" where
  "top_fill max_count [] (out, used) = out"
| "top_fill max_count (d # ds) (out, used) =
     (if d \<notin> used
      then (if length (out @ [d]) \<ge> max_count then out @ [d]
            else top_fill max_count ds (out @ [d], insert d used))
      else top_fill max_count ds (out, used))"

definition TopCandidates :: "string list \<Rightarrow> string list \<Rightarrow> nat \<Rightarrow> string list" where
  "TopCandidates discovered preferred max_count =
     (case top_preferred max_count discovered preferred ([], {}) of
        Inl out \<Rightarrow> out
      | Inr st \<Rightarrow> top_fill max_count discovered st)"

text \<open>
  Reference notions for the ranker.  \<open>first_seen xs\<close> keeps the first occurrence of every
  element of \<open>xs\<close>, in order.  \<open>preferred_hits\<close> lists, preferred name after preferred
  name, all discovered ids that name hits, in discovered order.
\<close>

fun first_seen :: "'a list \<Rightarrow> 'a list" where
  "first_seen [] = []"
| "first_seen (x # xs) = x # first_seen (filter (\<lambda>y. y \<noteq> x) xs)"

definition preferred_hits :: "string list \<Rightarrow> string list \<Rightarrow> string list" where
  "preferred_hits discovered preferred =
     concat (map (\<lambda>pref. filter (\<lambda>d. name_hit (ToLower d) (ToLower pref)) discovered) preferred)"

text \<open>
  The ranking as the specification words it: the first pass takes, for each preferred
  name, only the first discovered id that matches and is not yet used; the second pass
  fills up in discovered order; the result is cut at \<open>max_count\<close>.
\<close>

fun spec_first_pass :: "string list \<Rightarrow> string list \<Rightarrow> string list \<Rightarrow> string list" where
  "spec_first_pass discovered [] out = out"
| "spec_first_pass discovered (pref # prefs) out =
     (case List.find (\<lambda>d. name_hit (ToLower d) (ToLower pref) \<and> d \<notin> set out) discovered of
        Some d \<Rightarrow> spec_first_pass discovered prefs (out @ [d])
      | None \<Rightarrow> spec_first_pass discovered prefs out)"

definition spec_TopCandidates :: "string list \<Rightarrow> string list \<Rightarrow> nat \<Rightarrow> string list" where
  "spec_TopCandidates discovered preferred max_count =
     take max_count (first_seen (spec_first_pass discovered preferred [] @ discovered))"

text \<open>
  \<open>push_new out xs\<close> is what a loop that pushes every not-yet-used element of \<open>xs\<close> makes
  of \<open>out\<close> when nothing stops it.
\<close>

definition push_new :: "'a list \<Rightarrow> 'a list \<Rightarrow> 'a list" where
  "push_new out xs = out @ first_seen (filter (\<lambda>x. x \<notin> set out) xs)"

section \<open>JSON values\<close>

text \<open>
  The value kinds of \<^verbatim>\<open>nlohmann::json\<close> that a parsed document can hold.  The library
  stores an integer literal without a sign as an unsigned 64-bit number and one with a
  minus sign as a signed 64-bit number; \<^verbatim>\<open>is_number_integer()\<close> holds for both.  No
  function of the engine reads the value of a floating-point number.  An object is the
  sequence of its members in iteration order.
\<close>

datatype json =
    JNull
  | JBool bool
  | JInt int
  | JUInt nat
  | JFloat
  | JString string
  | JArray "json list"
  | JObject "(string \<times> json) list"

text \<open>
  \<open>field j k\<close> is \<open>Some v\<close> exactly when \<^verbatim>\<open>j.is_object() && j.contains(k)\<close>, and then
  \<open>v\<close> is \<^verbatim>\<open>j[k]\<close>.
\<close>

definition field :: "json \<Rightarrow> string \<Rightarrow> json option" where
  "field j k = (case j of JObject kvs \<Rightarrow> map_of kvs k | _ \<Rightarrow> None)"

text \<open>
  \<^verbatim>\<open>v.get<long long>()\<close> on an integer: a signed value is returned as it is, an unsigned
  one is converted to 64-bit signed, which wraps from \<open>2^63\<close> on.
\<close>

definition get_long_long :: "json \<Rightarrow> int option" where
  "get_long_long v =
     (case v of
        JInt i \<Rightarrow> Some i
      | JUInt u \<Rightarrow> Some (if int u < 2 ^ 63 then int u else int u - 2 ^ 64)
      | _ \<Rightarrow> None)"

text \<open>
  \<^verbatim>\<open>nlohmann::json::parse\<close> is the library's; the engine sees it only through
  \<^verbatim>\<open>ParseJson\<close>, which turns a discarded (unparsable) document into the empty object.
  The parser is a parameter \<open>parse\<close>, with \<open>None\<close> for a discarded document.
\<close>

definition ParseJson :: "(string \<Rightarrow> json option) \<Rightarrow> string \<Rightarrow> json" where
  "ParseJson parse s = (case parse s of None \<Rightarrow> JObject [] | Some j \<Rightarrow> j)"

section \<open>JSON miner\<close>

subsection \<open>ExtractModelIds\<close>

text \<open>The body of the loop in the lambda \<^verbatim>\<open>add\<close>: what one array item does to \<^verbatim>\<open>out\<close>.\<close>

definition add_item :: "json \<Rightarrow> string list \<Rightarrow> string list" where
  "add_item item out =
     (case item of
        JString s \<Rightarrow> out @ [s]
      | JObject kvs \<Rightarrow>
          (case field item ''id'' of
             Some (JString s) \<Rightarrow> out @ [s]
           | _ \<Rightarrow>
               (case field item ''name'' of
                  Some (JString s) \<Rightarrow> out @ [s]
                | _ \<Rightarrow> out))
      | _ \<Rightarrow> out)"

definition add :: "json \<Rightarrow> string list \<Rightarrow> string list" where
  "add arr out = (case arr of JArray items \<Rightarrow> fold add_item items out | _ \<Rightarrow> out)"

text \<open>
  The ids as collected, before \<^verbatim>\<open>std::set\<close> sees them, and the result: the elements of
  the set in its iteration order, which is ascending byte-wise order.
\<close>

definition collected_ids :: "json \<Rightarrow> string list" where
  "collected_ids j =
     (case j of
        JArray items \<Rightarrow> add j []
      | JObject kvs \<Rightarrow>
          (let out = (case field j ''data'' of Some d \<Rightarrow> add d [] | None \<Rightarrow> [])
           in (case field j ''models'' of Some m \<Rightarrow> add m out | None \<Rightarrow> out))
      | _ \<Rightarrow> [])"

definition ExtractModelIds :: "json \<Rightarrow> string list" where
  "ExtractModelIds j = sorted_list_of_set (set (collected_ids j))"

subsection \<open>ExtractMaxContext\<close>

definition candidate :: "string \<Rightarrow> bool" where
  "candidate k_low =
     (found k_low ''context'' \<or> found k_low ''inputtokenlimit'' \<or> found k_low ''contextwindow'' \<or>
      (found k_low ''token'' \<and> \<not> found k_low ''output'' \<and> \<not> found k_low ''completion''))"

text \<open>
  The recursive lambda \<^verbatim>\<open>scan\<close>, with the captured \<^verbatim>\<open>best\<close> passed through.  \<open>scan\<close> is
  one call on a node, \<open>scan_members\<close> the loop over the members of an object and
  \<open>scan_items\<close> the loop over the items of an array.  There is no depth counter in the
  source and none here.  These three functions give the value of a walk that returns;
  the adapters use them, so the adapters are modelled on documents whose walk the call
  stack holds.  The stack itself is accounted for below.
\<close>

fun scan :: "json \<Rightarrow> string \<Rightarrow> int \<Rightarrow> int"
  and scan_members :: "(string \<times> json) list \<Rightarrow> int \<Rightarrow> int"
  and scan_items :: "json list \<Rightarrow> string \<Rightarrow> int \<Rightarrow> int" where
  "scan (JObject kvs) key_name best = scan_members kvs best"
| "scan (JArray items) key_name best = scan_items items key_name best"
| "scan JNull key_name best = best"
| "scan (JBool b) key_name best = best"
| "scan (JInt i) key_name best = best"
| "scan (JUInt u) key_name best = best"
| "scan JFloat key_name best = best"
| "scan (JString s) key_name best = best"
| "scan_members [] best = best"
| "scan_members ((k, v) # kvs) best =
     (let k_low = ToLower k;
          best' = (case get_long_long v of
                     Some n \<Rightarrow> if candidate k_low then max best n else best
                   | None \<Rightarrow> best)
      in scan_members kvs (scan v k_low best'))"
| "scan_items [] key_name best = best"
| "scan_items (item # items) key_name best = scan_items items key_name (scan item key_name best)"

definition ExtractMaxContext :: "json \<Rightarrow> int" where
  "ExtractMaxContext j = scan j [] (- 1)"

text \<open>
  The same walk on a stack of limited size.  Every call of the lambda takes a frame of
  the native call stack and holds it until it returns, and the calls on the children
  run inside it.  \<open>frames\<close> is the number of calls that the stack can still hold, a
  quantity of the platform that the source does not fix; a call made when no frame is
  left overflows the stack and the program ends without a result, which is \<open>None\<close>.  An
  overflow in a child ends the loops of all callers.
\<close>

fun scan_within :: "nat \<Rightarrow> json \<Rightarrow> string \<Rightarrow> int \<Rightarrow> int option"
  and scan_members_within :: "nat \<Rightarrow> (string \<times> json) list \<Rightarrow> int \<Rightarrow> int option"
  and scan_items_within :: "nat \<Rightarrow> json list \<Rightarrow> string \<Rightarrow> int \<Rightarrow> int option" where
  "scan_within 0 node key_name best = None"
| "scan_within (Suc frames) (JObject kvs) key_name best = scan_members_within frames kvs best"
| "scan_within (Suc frames) (JArray items) key_name best = scan_items_within frames items key_name best"
| "scan_within (Suc frames) JNull key_name best = Some best"
| "scan_within (Suc frames) (JBool b) key_name best = Some best"
| "scan_within (Suc frames) (JInt i) key_name best = Some best"
| "scan_within (Suc frames) (JUInt u) key_name best = Some best"
| "scan_within (Suc frames) JFloat key_name best = Some best"
| "scan_within (Suc frames) (JString s) key_name best = Some best"
| "scan_members_within frames [] best = Some best"
| "scan_members_within frames ((k, v) # kvs) best =
     (let k_low = ToLower k;
          best' = (case get_long_long v of
                     Some n \<Rightarrow> if candidate k_low then max best n else best
                   | None \<Rightarrow> best)
      in case scan_within frames v k_low best' of
           None \<Rightarrow> None
         | Some best \<Rightarrow> scan_members_within frames kvs best)"
| "scan_items_within frames [] key_name best = Some best"
| "scan_items_within frames (item # items) key_name best =
     (case scan_within frames item key_name best of
        None \<Rightarrow> None
      | Some best \<Rightarrow> scan_items_within frames items key_name best)"

definition ExtractMaxContext_within :: "nat \<Rightarrow> json \<Rightarrow> int option" where
  "ExtractMaxContext_within frames j = scan_within frames j [] (- 1)"

text \<open>
  Reference notions: \<open>member_of j k v\<close> says that \<open>v\<close> is the value of a member named \<open>k\<close>
  of some object at any depth of \<open>j\<close>; \<open>candidate_values j\<close> are the integers the scan
  may count.  \<open>nest n j\<close> wraps \<open>j\<close> into \<open>n\<close> objects and arrays.  \<open>nesting j\<close> is the
  number of levels of \<open>j\<close>: one for a value that is neither an object nor an array, and
  one more than the deepest member or item otherwise.
\<close>

inductive member_of :: "json \<Rightarrow> string \<Rightarrow> json \<Rightarrow> bool" where
  here: "(k, v) \<in> set kvs \<Longrightarrow> member_of (JObject kvs) k v"
| below: "(k', v') \<in> set kvs \<Longrightarrow> member_of v' k v \<Longrightarrow> member_of (JObject kvs) k v"
| item: "x \<in> set items \<Longrightarrow> member_of x k v \<Longrightarrow> member_of (JArray items) k v"

definition candidate_values :: "json \<Rightarrow> int set" where
  "candidate_values j =
     {n. \<exists>k v. member_of j k v \<and> candidate (ToLower k) \<and> get_long_long v = Some n}"

text \<open>What the member \<open>k\<close> with value \<open>v\<close> itself adds to the candidate values.\<close>

definition own_value :: "string \<Rightarrow> json \<Rightarrow> int set" where
  "own_value k v =
     (if candidate (ToLower k) then (case get_long_long v of Some n \<Rightarrow> {n} | None \<Rightarrow> {}) else {})"

fun nest :: "nat \<Rightarrow> json \<Rightarrow> json" where
  "nest 0 j = j"
| "nest (Suc n) j = JObject [(''data'', JArray [nest n j])]"

fun nesting :: "json \<Rightarrow> nat"
  and nesting_members :: "(string \<times> json) list \<Rightarrow> nat"
  and nesting_items :: "json list \<Rightarrow> nat" where
  "nesting (JObject kvs) = Suc (nesting_members kvs)"
| "nesting (JArray items) = Suc (nesting_items items)"
| "nesting JNull = 1"
| "nesting (JBool b) = 1"
| "nesting (JInt i) = 1"
| "nesting (JUInt u) = 1"
| "nesting JFloat = 1"
| "nesting (JString s) = 1"
| "nesting_members [] = 0"
| "nesting_members ((k, v) # kvs) = max (nesting v) (nesting_members kvs)"
| "nesting_items [] = 0"
| "nesting_items (item # items) = max (nesting item) (nesting_items items)"

subsection \<open>ExtractCapabilities\<close>

definition consider_text :: "string \<Rightarrow> string set \<Rightarrow> string set" where
  "consider_text text caps =
     (let t = ToLower text;
          caps = (if found t ''vision'' \<or> found t ''vl'' \<or> found t ''image''
                  then insert ''vision/image'' caps else caps);
          caps = (if found t ''reason'' \<or> found t ''thinking''
                  then insert ''reasoning'' caps else caps);
          caps = (if found t ''coder'' \<or> found t ''code''
                  then insert ''coding'' caps else caps);
          caps = (if found t ''embed'' then insert ''embeddings'' caps else caps);
          caps = (if found t ''audio'' \<or> found t ''speech''
                  then insert ''audio'' caps else caps);
          caps = (if found t ''rerank'' then insert ''reranking'' caps else caps);
          caps = (if found t ''tool'' \<or> found t ''function''
                  then insert ''tool_use'' caps else caps)
      in caps)"

fun walk :: "json \<Rightarrow> string set \<Rightarrow> string set"
  and walk_members :: "(string \<times> json) list \<Rightarrow> string set \<Rightarrow> string set"
  and walk_items :: "json list \<Rightarrow> string set \<Rightarrow> string set" where
  "walk (JObject kvs) caps = walk_members kvs caps"
| "walk (JArray items) caps = walk_items items caps"
| "walk JNull caps = caps"
| "walk (JBool b) caps = caps"
| "walk (JInt i) caps = caps"
| "walk (JUInt u) caps = caps"
| "walk JFloat caps = caps"
| "walk (JString s) caps = caps"
| "walk_members [] caps = caps"
| "walk_members ((k, v) # kvs) caps =
     (let caps = consider_text k caps;
          caps = (case v of JString s \<Rightarrow> consider_text s caps | _ \<Rightarrow> caps)
      in walk_members kvs (walk v caps))"
| "walk_items [] caps = caps"
| "walk_items (it # items) caps = walk_items items (walk it caps)"

definition ExtractCapabilities :: "string list \<Rightarrow> json \<Rightarrow> string list" where
  "ExtractCapabilities model_ids raw =
     sorted_list_of_set (walk raw (fold consider_text model_ids {}))"

subsection \<open>Answer extractors\<close>

text \<open>
  The loops over content parts write every string-valued \<^verbatim>\<open>text\<close> member followed by a
  newline into the stream.
\<close>

definition part_text :: "json \<Rightarrow> string" where
  "part_text part = (case field part ''text'' of Some (JString s) \<Rightarrow> s @ [CHR 0x0A] | _ \<Rightarrow> [])"

definition join_parts :: "json list \<Rightarrow> string" where
  "join_parts parts = concat (map part_text parts)"

definition ExtractOpenAIText :: "json \<Rightarrow> string" where
  "ExtractOpenAIText j =
     (case field j ''choices'' of
        Some (JArray (choice # _)) \<Rightarrow>
          (case field choice ''message'' of
             Some msg \<Rightarrow>
               (case field msg ''content'' of
                  Some (JString s) \<Rightarrow> s
                | Some (JArray parts) \<Rightarrow> join_parts parts
                | _ \<Rightarrow> [])
           | None \<Rightarrow> [])
      | _ \<Rightarrow> [])"

definition ExtractGoogleText :: "json \<Rightarrow> string" where
  "ExtractGoogleText j =
     (case field j ''candidates'' of
        Some (JArray (c0 # _)) \<Rightarrow>
          (case field c0 ''content'' of
             Some content \<Rightarrow>
               (case field content ''parts'' of
                  Some (JArray parts) \<Rightarrow> join_parts parts
                | _ \<Rightarrow> [])
           | None \<Rightarrow> [])
      | _ \<Rightarrow> [])"

definition ExtractCohereText :: "json \<Rightarrow> string" where
  "ExtractCohereText j =
     (case j of
        JObject kvs \<Rightarrow>
          (case field j ''text'' of
             Some (JString s) \<Rightarrow> s
           | _ \<Rightarrow>
               (case field j ''message'' of
                  Some (JObject m) \<Rightarrow>
                    (case field (JObject m) ''content'' of
                       Some (JArray parts) \<Rightarrow> join_parts parts
                     | _ \<Rightarrow> [])
                | _ \<Rightarrow> []))
      | _ \<Rightarrow> [])"

text \<open>
  Reference notion for \<^verbatim>\<open>ExtractModelIds\<close>: the id one array item contributes, if any: its
  string value, or an object's string \<^verbatim>\<open>id\<close>, or else its string \<^verbatim>\<open>name\<close>.
\<close>

definition item_id :: "json \<Rightarrow> string option" where
  "item_id item =
     (case item of
        JString s \<Rightarrow> Some s
      | JObject kvs \<Rightarrow>
          (case map_of kvs ''id'' of
             Some (JString s) \<Rightarrow> Some s
           | _ \<Rightarrow> (case map_of kvs ''name'' of Some (JString s) \<Rightarrow> Some s | _ \<Rightarrow> None))
      | _ \<Rightarrow> None)"

definition array_ids :: "json option \<Rightarrow> string list" where
  "array_ids arr = (case arr of Some (JArray items) \<Rightarrow> List.map_filter item_id items | _ \<Rightarrow> [])"

section \<open>Report data\<close>

text \<open>
  The structs of \<^verbatim>\<open>audit_engine.h\<close> and \<^verbatim>\<open>HttpResponse\<close>.  Several structs have members
  of the same name (\<^verbatim>\<open>status\<close>, \<^verbatim>\<open>latency_ms\<close>, ...); the fields carry the struct as a
  prefix: \<open>resp_\<close> for \<^verbatim>\<open>HttpResponse\<close>, \<open>rt_\<close> for \<^verbatim>\<open>RequestTrace\<close>, \<open>mc_\<close> for
  \<^verbatim>\<open>ModelCheck\<close>, \<open>pt_\<close> for \<^verbatim>\<open>PromptTest\<close>.  \<^verbatim>\<open>long\<close>, \<^verbatim>\<open>long long\<close> and \<^verbatim>\<open>int\<close>
  members are integers: a run issues at most thirteen requests per provider and
  latencies are elapsed milliseconds, so no counter or sum comes near the range of
  its type.  A \<^verbatim>\<open>std::map<std::string, std::string>\<close> is the list of its entries in
  iteration order.  \<^verbatim>\<open>raw_payload\<close> is only ever assigned to by key, which turns the
  initial null value into an object: it is the list of the members, the empty list for
  null.
\<close>

record HttpResponse =
  resp_status :: int
  resp_latency_ms :: int
  resp_body :: string
  resp_headers :: "(string \<times> string) list"
  resp_error :: string

record PromptTest =
  pt_name :: string
  pt_status :: int
  pt_latency_ms :: int
  pt_rate_limit_headers :: "(string \<times> string) list"
  pt_answer :: string
  pt_error_snippet :: string

record ModelCheck =
  mc_model :: string
  mc_status :: int
  mc_latency_ms :: int
  mc_working :: bool
  mc_error_snippet :: string

record RequestTrace =
  rt_step :: string
  rt_method :: string
  rt_url :: string
  rt_status :: int
  rt_latency_ms :: int
  rt_rate_limit_headers :: "(string \<times> string) list"
  rt_response_snippet :: string
  rt_error :: string

record ProviderAudit =
  provider_id :: string
  provider_name :: string
  api_key :: string
  key_supplied :: bool
  auth_status :: int
  models_status :: int
  auth_latency_ms :: int
  models_latency_ms :: int
  auth_rate_limit_headers :: "(string \<times> string) list"
  models_rate_limit_headers :: "(string \<times> string) list"
  sample_models :: "string list"
  capability_tags :: "string list"
  working_models :: "string list"
  failing_models :: "string list"
  model_used :: string
  max_context_seen :: int
  model_checks :: "ModelCheck list"
  prompt_tests :: "PromptTest list"
  request_traces :: "RequestTrace list"
  score_reasoning :: int
  score_coding :: int
  score_axui :: int
  score_total :: int
  total_requests :: int
  successful_requests :: int
  failed_requests :: int
  avg_latency_ms :: int
  "notes" :: string
  error_snippet :: string
  raw_payload :: "(string \<times> json) list"

record AuditReport =
  generated_at_utc :: string
  run_logs :: "string list"
  providers :: "ProviderAudit list"

text \<open>A default-constructed \<^verbatim>\<open>ProviderAudit\<close>, with the member initialisers of the header.\<close>

definition new_ProviderAudit :: ProviderAudit where
  "new_ProviderAudit =
     \<lparr> provider_id = [], provider_name = [], api_key = [], key_supplied = False,
       auth_status = - 1, models_status = - 1, auth_latency_ms = - 1, models_latency_ms = - 1,
       auth_rate_limit_headers = [], models_rate_limit_headers = [],
       sample_models = [], capability_tags = [], working_models = [], failing_models = [],
       model_used = [], max_context_seen = - 1,
       model_checks = [], prompt_tests = [], request_traces = [],
       score_reasoning = 0, score_coding = 0, score_axui = 0, score_total = 0,
       total_requests = 0, successful_requests = 0, failed_requests = 0,
       avg_latency_ms = - 1, notes = [], error_snippet = [], raw_payload = [] \<rparr>"

section \<open>Trace and metrics recorder\<close>

text \<open>
  \<^verbatim>\<open>RateLimitHeaders\<close> tests the key as it stands in the map: the function does not
  lower-case it.  \<^verbatim>\<open>out[k] = v\<close> is \<open>AList.update\<close>.
\<close>

definition rate_limit_key :: "string \<Rightarrow> bool" where
  "rate_limit_key k = (found k ''rate'' \<or> found k ''limit'' \<or> found k ''quota'' \<or> found k ''retry'')"

fun RateLimitHeaders_loop ::
  "(string \<times> string) list \<Rightarrow> (string \<times> string) list \<Rightarrow> (string \<times> string) list" where
  "RateLimitHeaders_loop [] out = out"
| "RateLimitHeaders_loop ((k, v) # hs) out =
     RateLimitHeaders_loop hs (if rate_limit_key k then AList.update k v out else out)"

definition RateLimitHeaders :: "(string \<times> string) list \<Rightarrow> (string \<times> string) list" where
  "RateLimitHeaders hs = RateLimitHeaders_loop hs []"

text \<open>
  The Sender stores a header under \<^verbatim>\<open>ToLower(Trim(name))\<close> (\<^verbatim>\<open>HeaderCallback\<close>,
  \<^verbatim>\<open>ParseRawHeaders\<close>), so the maps it hands to the engine have lower-case keys, each
  once.
\<close>

definition sender_headers :: "(string \<times> string) list \<Rightarrow> bool" where
  "sender_headers hs = (distinct (map fst hs) \<and> list_all (\<lambda>(k, v). ToLower k = k) hs)"

definition AddTrace ::
  "ProviderAudit \<Rightarrow> string \<Rightarrow> string \<Rightarrow> string \<Rightarrow> HttpResponse \<Rightarrow> ProviderAudit" where
  "AddTrace p step method url r =
     (let t = \<lparr> rt_step = step, rt_method = method, rt_url = url,
                rt_status = resp_status r, rt_latency_ms = resp_latency_ms r,
                rt_rate_limit_headers = RateLimitHeaders (resp_headers r),
                rt_response_snippet = Snippet (resp_body r) kSnippetLen,
                rt_error = resp_error r \<rparr>;
          p = p\<lparr>request_traces := request_traces p @ [t]\<rparr>;
          p = p\<lparr>total_requests := total_requests p + 1\<rparr>
      in if resp_status r \<ge> 200 \<and> resp_status r < 300 \<and> resp_error r = []
         then p\<lparr>successful_requests := successful_requests p + 1\<rparr>
         else p\<lparr>failed_requests := failed_requests p + 1\<rparr>)"

text \<open>
  \<^verbatim>\<open>FinalizeMetrics\<close>.  \<^verbatim>\<open>long\<close> and \<^verbatim>\<open>long long\<close> are taken at 64 bits, so the
  cast of the quotient to \<^verbatim>\<open>long\<close> changes nothing.  \<^verbatim>\<open>std::accumulate\<close> starts at
  \<^verbatim>\<open>0LL\<close> and adds the latencies one by one into a \<^verbatim>\<open>long long\<close>: \<open>wrap64 n\<close> is the
  value that a 64-bit signed integer holds for the exact result \<open>n\<close>, which wraps where
  \<open>n\<close> leaves the range.  \<open>quot\<close> is the integer division of C++, which truncates
  towards zero.
\<close>

definition wrap64 :: "int \<Rightarrow> int" where
  "wrap64 n = (n + 2 ^ 63) mod 2 ^ 64 - 2 ^ 63"

definition quot :: "int \<Rightarrow> int \<Rightarrow> int" where
  "quot a b = sgn a * sgn b * (\<bar>a\<bar> div \<bar>b\<bar>)"

definition accumulate :: "int list \<Rightarrow> int \<Rightarrow> int" where
  "accumulate lats init = fold (\<lambda>l acc. wrap64 (acc + l)) lats init"

definition FinalizeMetrics :: "ProviderAudit \<Rightarrow> ProviderAudit" where
  "FinalizeMetrics p =
     (let lats = filter (\<lambda>l. l \<ge> 0) (map rt_latency_ms (request_traces p))
      in if lats \<noteq> []
         then (let total = accumulate lats 0
               in p\<lparr>avg_latency_ms := quot total (int (length lats))\<rparr>)
         else p)"

section \<open>Scorer\<close>

fun get_answer :: "PromptTest list \<Rightarrow> string \<Rightarrow> string" where
  "get_answer [] name = []"
| "get_answer (t # ts) name = (if pt_name t = name then ToLower (pt_answer t) else get_answer ts name)"

definition ScoreProvider :: "ProviderAudit \<Rightarrow> ProviderAudit" where
  "ScoreProvider p =
     (let reasoning = get_answer (prompt_tests p) ''reasoning'';
          coding = get_answer (prompt_tests p) ''coding'';
          axui = get_answer (prompt_tests p) ''axui'';
          p = p\<lparr>score_reasoning :=
                 (if found reasoning ''5 minute'' \<or> reasoning = ''5'' \<or> found reasoning ''five minutes''
                  then 1 else 0)\<rparr>;
          p = p\<lparr>score_coding :=
                 (if found coding ''[::-1]'' \<or> found coding ''reversed('' then 1 else 0)\<rparr>;
          has_close = found axui ''close_popup'';
          has_continue = found axui ''btn_continue'';
          p = (if has_close \<and> has_continue then p\<lparr>score_axui := 2\<rparr>
               else if has_close \<or> has_continue then p\<lparr>score_axui := 1\<rparr>
               else p\<lparr>score_axui := 0\<rparr>)
      in p\<lparr>score_total := score_reasoning p + score_coding p + score_axui p\<rparr>)"

section \<open>The environment of a run\<close>

text \<open>
  What the engine cannot decide is an oracle of the environment \<open>env\<close>: the library's
  JSON parser; the value the cancellation flag holds at its \<open>k\<close>-th \<^verbatim>\<open>load()\<close> (another
  thread stores to it); the response the Sender returns to the \<open>k\<close>-th \<^verbatim>\<open>Request\<close>; the
  string the \<open>k\<close>-th call of \<^verbatim>\<open>NowUtc\<close> returns; and whether the caller supplied a log
  callback.  What the run changes is the \<open>run_state\<close>: how often the flag was loaded,
  the requests sent (method and URL; the request headers, \<^verbatim>\<open>extra_headers\<close> among
  them, and the request bodies reach only the Sender), how often the clock was read, \<^verbatim>\<open>report.run_logs\<close>, and the lines handed to
  the caller's callback.
\<close>

record env =
  parse :: "string \<Rightarrow> json option"
  cancel_requested :: "nat \<Rightarrow> bool"
  sender :: "nat \<Rightarrow> HttpResponse"
  clock :: "nat \<Rightarrow> string"
  log_set :: bool

record run_state =
  loads :: nat
  sent :: "(string \<times> string) list"
  ticks :: nat
  report_logs :: "string list"
  emitted :: "string list"

type_synonym LogFn = "string \<Rightarrow> run_state \<Rightarrow> run_state"

definition load_cancel :: "env \<Rightarrow> run_state \<Rightarrow> bool \<times> run_state" where
  "load_cancel e s = (cancel_requested e (loads s), s\<lparr>loads := Suc (loads s)\<rparr>)"

definition Request :: "env \<Rightarrow> string \<Rightarrow> string \<Rightarrow> run_state \<Rightarrow> HttpResponse \<times> run_state" where
  "Request e method url s = (sender e (length (sent s)), s\<lparr>sent := sent s @ [(method, url)]\<rparr>)"

definition NowUtc :: "env \<Rightarrow> run_state \<Rightarrow> string \<times> run_state" where
  "NowUtc e s = (clock e (ticks s), s\<lparr>ticks := Suc (ticks s)\<rparr>)"

text \<open>The lambda \<^verbatim>\<open>push_log\<close> of \<^verbatim>\<open>AuditEngine::Run\<close>, which the adapters receive as \<^verbatim>\<open>log\<close>.\<close>

definition push_log :: "env \<Rightarrow> LogFn" where
  "push_log e message s =
     (let (now, s) = NowUtc e s;
          line = ''['' @ now @ ''] '' @ message;
          s = s\<lparr>report_logs := report_logs s @ [line]\<rparr>
      in if log_set e then s\<lparr>emitted := emitted s @ [line]\<rparr> else s)"

section \<open>Provider adapters\<close>

text \<open>
  The names of \<^verbatim>\<open>kPromptSuite\<close>, in order; the prompt texts go into request bodies only.
\<close>

definition kPromptSuite :: "string list" where
  "kPromptSuite = [''reasoning'', ''coding'', ''axui'']"

definition canceled_note :: "ProviderAudit \<Rightarrow> ProviderAudit" where
  "canceled_note p = FinalizeMetrics (p\<lparr>notes := notes p @ '' Audit canceled by user.''\<rparr>)"

text \<open>
  The five adapters share, statement for statement, the loop over the model candidates,
  the choice of \<^verbatim>\<open>model_used\<close>, the loop over the prompt suite and the final scoring;
  they differ there in the answer extractor \<open>extract\<close>, in the URL (\<open>url_of\<close>, which
  depends on the model for Google only), in the tag of the log line, and Cohere draws
  its candidates from \<^verbatim>\<open>chat_candidates\<close> instead of \<^verbatim>\<open>discovered\<close> (\<open>pool\<close>).  These
  statements are written once.  A loop yields \<open>Inl p\<close> when the adapter returns \<open>p\<close>
  from inside it (cancellation) and \<open>Inr p\<close> when it runs to its end.
\<close>

fun ModelChecks ::
  "env \<Rightarrow> (json \<Rightarrow> string) \<Rightarrow> (string \<Rightarrow> string) \<Rightarrow> string list \<Rightarrow> ProviderAudit \<Rightarrow> run_state
     \<Rightarrow> (ProviderAudit + ProviderAudit) \<times> run_state" where
  "ModelChecks e extract url_of [] p s = (Inr p, s)"
| "ModelChecks e extract url_of (model # rest) p s =
     (let (canceled, s) = load_cancel e s
      in if canceled then (Inl (canceled_note p), s)
         else
           (let (resp, s) = Request e ''POST'' (url_of model) s;
                p = AddTrace p (''model_check:'' @ model) ''POST'' (url_of model) resp;
                answer = extract (ParseJson (parse e) (resp_body resp));
                mc = \<lparr> mc_model = model, mc_status = resp_status resp,
                        mc_latency_ms = resp_latency_ms resp,
                        mc_working = (resp_status resp \<ge> 200 \<and> resp_status resp < 300 \<and> answer \<noteq> []),
                        mc_error_snippet = Snippet (resp_body resp) kSnippetLen \<rparr>;
                p = p\<lparr>model_checks := model_checks p @ [mc]\<rparr>;
                p = (if mc_working mc then p\<lparr>working_models := working_models p @ [model]\<rparr>
                     else p\<lparr>failing_models := failing_models p @ [model]\<rparr>)
            in ModelChecks e extract url_of rest p s))"

fun PromptSuite ::
  "env \<Rightarrow> (json \<Rightarrow> string) \<Rightarrow> string \<Rightarrow> string \<Rightarrow> LogFn \<Rightarrow> string list \<Rightarrow> ProviderAudit \<Rightarrow> run_state
     \<Rightarrow> (ProviderAudit + ProviderAudit) \<times> run_state" where
  "PromptSuite e extract url tag log [] p s = (Inr p, s)"
| "PromptSuite e extract url tag log (prompt # rest) p s =
     (let (canceled, s) = load_cancel e s
      in if canceled then (Inl (canceled_note p), s)
         else
           (let s = log (''['' @ tag @ ''] Prompt test: '' @ prompt) s;
                (resp, s) = Request e ''POST'' url s;
                p = AddTrace p (''prompt_test:'' @ prompt) ''POST'' url resp;
                t = \<lparr> pt_name = prompt, pt_status = resp_status resp,
                       pt_latency_ms = resp_latency_ms resp,
                       pt_rate_limit_headers = RateLimitHeaders (resp_headers resp),
                       pt_answer = Snippet (extract (ParseJson (parse e) (resp_body resp))) 1400,
                       pt_error_snippet =
                         (if resp_status resp < 200 \<or> resp_status resp \<ge> 300
                          then Snippet (resp_body resp) 700 else []) \<rparr>;
                p = p\<lparr>prompt_tests := prompt_tests p @ [t]\<rparr>
            in PromptSuite e extract url tag log rest p s))"

definition choose_model_used :: "string list \<Rightarrow> string list \<Rightarrow> ProviderAudit \<Rightarrow> ProviderAudit" where
  "choose_model_used pool preferred p =
     p\<lparr>model_used := (case working_models p of
                        first_working # _ \<Rightarrow> first_working
                      | [] \<Rightarrow> ChooseModel pool preferred)\<rparr>"

definition checks_and_prompts ::
  "env \<Rightarrow> (json \<Rightarrow> string) \<Rightarrow> (string \<Rightarrow> string) \<Rightarrow> string \<Rightarrow> LogFn \<Rightarrow> string list \<Rightarrow> string list
     \<Rightarrow> ProviderAudit \<Rightarrow> run_state \<Rightarrow> ProviderAudit \<times> run_state" where
  "checks_and_prompts e extract url_of tag log pool preferred p s =
     (case ModelChecks e extract url_of (TopCandidates pool preferred 8) p s of
        (Inl p, s) \<Rightarrow> (p, s)
      | (Inr p, s) \<Rightarrow>
          (let p = choose_model_used pool preferred p
           in case PromptSuite e extract (url_of (model_used p)) tag log kPromptSuite p s of
                (Inl p, s) \<Rightarrow> (p, s)
              | (Inr p, s) \<Rightarrow> (FinalizeMetrics (ScoreProvider p), s)))"

text \<open>
  The statements every adapter runs on the response to its list request, up to the three
  miner calls.
\<close>

definition record_list_response ::
  "ProviderAudit \<Rightarrow> string \<Rightarrow> HttpResponse \<Rightarrow> ProviderAudit" where
  "record_list_response p list_url list_resp =
     (let p = AddTrace p ''list_models'' ''GET'' list_url list_resp;
          p = p\<lparr>models_status := resp_status list_resp,
                 models_latency_ms := resp_latency_ms list_resp,
                 models_rate_limit_headers := RateLimitHeaders (resp_headers list_resp)\<rparr>
      in if resp_status list_resp < 200 \<or> resp_status list_resp \<ge> 300
         then p\<lparr>error_snippet := Snippet (resp_body list_resp) kSnippetLen\<rparr>
         else p)"

definition record_discovery :: "ProviderAudit \<Rightarrow> string list \<Rightarrow> json \<Rightarrow> ProviderAudit" where
  "record_discovery p discovered list_json =
     p\<lparr>sample_models := take (min (length discovered) 30) discovered,
       max_context_seen := ExtractMaxContext list_json,
       capability_tags := ExtractCapabilities discovered list_json\<rparr>"

definition start_audit :: "string \<Rightarrow> string \<Rightarrow> string \<Rightarrow> ProviderAudit" where
  "start_audit pid pname key =
     new_ProviderAudit\<lparr>provider_id := pid, provider_name := pname, api_key := key,
                       key_supplied := (key \<noteq> [])\<rparr>"

definition AuditOpenAICompatible ::
  "env \<Rightarrow> string \<Rightarrow> string \<Rightarrow> string \<Rightarrow> string \<Rightarrow> string \<Rightarrow> string list \<Rightarrow> LogFn \<Rightarrow> run_state
     \<Rightarrow> ProviderAudit \<times> run_state" where
  "AuditOpenAICompatible e pid pname key list_url chat_url preferred_models log s =
     (let p = start_audit pid pname key
      in if key = [] then (p\<lparr>notes := ''No API key supplied.''\<rparr>, s)
         else
           (let s = log (''['' @ pname @ ''] Fetching model list'') s;
                (list_resp, s) = Request e ''GET'' list_url s;
                p = record_list_response p list_url list_resp;
                models_json = ParseJson (parse e) (resp_body list_resp);
                p = p\<lparr>raw_payload := AList.update ''models_response'' models_json (raw_payload p)\<rparr>;
                discovered = ExtractModelIds models_json;
                p = record_discovery p discovered models_json
            in if discovered = []
               then (FinalizeMetrics (p\<lparr>notes := ''No models discovered or access denied.''\<rparr>), s)
               else checks_and_prompts e ExtractOpenAIText (\<lambda>model. chat_url) pname log
                      discovered preferred_models p s))"

definition supports_generate :: "json \<Rightarrow> bool" where
  "supports_generate model =
     (case field model ''supportedGenerationMethods'' of
        Some (JArray ms) \<Rightarrow> list_ex (\<lambda>m. m = JString ''generateContent'') ms
      | _ \<Rightarrow> False)"

definition google_item :: "json \<Rightarrow> string list \<Rightarrow> string list" where
  "google_item model discovered =
     (case field model ''name'' of
        Some (JString name) \<Rightarrow> if supports_generate model then discovered @ [name] else discovered
      | _ \<Rightarrow> discovered)"

definition models_array :: "json \<Rightarrow> json list" where
  "models_array list_json = (case field list_json ''models'' of Some (JArray ms) \<Rightarrow> ms | _ \<Rightarrow> [])"

definition google_preferred :: "string list" where
  "google_preferred =
     [''models/gemini-2.5-pro'', ''models/gemini-2.5-flash'',
      ''models/gemini-2.0-flash'', ''models/gemini-1.5-pro'']"

definition google_url :: "string \<Rightarrow> string \<Rightarrow> string" where
  "google_url key model =
     ''https://generativelanguage.googleapis.com/v1beta/'' @ model @ '':generateContent?key='' @ key"

definition AuditGoogle :: "env \<Rightarrow> string \<Rightarrow> LogFn \<Rightarrow> run_state \<Rightarrow> ProviderAudit \<times> run_state" where
  "AuditGoogle e key log s =
     (let p = start_audit ''google_ai_studio'' ''Google AI Studio'' key
      in if key = [] then (p\<lparr>notes := ''No API key supplied.''\<rparr>, s)
         else
           (let list_url = ''https://generativelanguage.googleapis.com/v1beta/models?key='' @ key;
                s = log ''[Google AI Studio] Fetching model list'' s;
                (list_resp, s) = Request e ''GET'' list_url s;
                p = record_list_response p list_url list_resp;
                list_json = ParseJson (parse e) (resp_body list_resp);
                p = p\<lparr>raw_payload := AList.update ''models_response'' list_json (raw_payload p)\<rparr>;
                discovered = fold google_item (models_array list_json) [];
                discovered = sorted_list_of_set (set discovered);
                p = record_discovery p discovered list_json
            in if discovered = []
               then (FinalizeMetrics (p\<lparr>notes := ''No generateContent models discovered.''\<rparr>), s)
               else checks_and_prompts e ExtractGoogleText (google_url key) ''Google AI Studio'' log
                      discovered google_preferred p s))"

definition cohere_item :: "json \<Rightarrow> string list \<Rightarrow> string list" where
  "cohere_item model discovered =
     (case field model ''name'' of
        Some (JString name) \<Rightarrow> discovered @ [name]
      | _ \<Rightarrow> (case model of JString name \<Rightarrow> discovered @ [name] | _ \<Rightarrow> discovered))"

definition cohere_preferred :: "string list" where
  "cohere_preferred =
     [''command-a-reasoning-08-2025'', ''command-r-08-2024'', ''command-a-vision-07-2025'']"

definition AuditCohere :: "env \<Rightarrow> string \<Rightarrow> LogFn \<Rightarrow> run_state \<Rightarrow> ProviderAudit \<times> run_state" where
  "AuditCohere e key log s =
     (let p = start_audit ''cohere'' ''Cohere'' key
      in if key = [] then (p\<lparr>notes := ''No API key supplied.''\<rparr>, s)
         else
           (let list_url = ''https://api.cohere.com/v1/models'';
                s = log ''[Cohere] Fetching model list'' s;
                (list_resp, s) = Request e ''GET'' list_url s;
                p = record_list_response p list_url list_resp;
                list_json = ParseJson (parse e) (resp_body list_resp);
                p = p\<lparr>raw_payload := AList.update ''models_response'' list_json (raw_payload p)\<rparr>;
                discovered = fold cohere_item (models_array list_json) [];
                discovered = sorted_list_of_set (set discovered);
                p = record_discovery p discovered list_json;
                chat_candidates =
                  filter (\<lambda>m. \<not> (found (ToLower m) ''embed'' \<or> found (ToLower m) ''rerank'')) discovered
            in if chat_candidates = []
               then (FinalizeMetrics
                       (p\<lparr>notes := ''No chat-capable models inferred from model names.''\<rparr>), s)
               else checks_and_prompts e ExtractCohereText (\<lambda>model. ''https://api.cohere.com/v1/chat'')
                      ''Cohere'' log chat_candidates cohere_preferred p s))"

text \<open>
  Vercel and GitHub send an identity request before the list request and store its
  status, latency and rate-limit headers.
\<close>

definition record_auth_response :: "ProviderAudit \<Rightarrow> string \<Rightarrow> HttpResponse \<Rightarrow> ProviderAudit" where
  "record_auth_response p auth_url auth_resp =
     (let p = AddTrace p ''auth_user'' ''GET'' auth_url auth_resp
      in p\<lparr>auth_status := resp_status auth_resp,
           auth_latency_ms := resp_latency_ms auth_resp,
           auth_rate_limit_headers := RateLimitHeaders (resp_headers auth_resp)\<rparr>)"

definition vercel_preferred :: "string list" where
  "vercel_preferred =
     [''openai/gpt-5'', ''openai/gpt-4.1'', ''openai/gpt-4o'',
      ''anthropic/claude-3.7-sonnet'', ''google/gemini-2.5-pro'']"

definition AuditVercel :: "env \<Rightarrow> string \<Rightarrow> LogFn \<Rightarrow> run_state \<Rightarrow> ProviderAudit \<times> run_state" where
  "AuditVercel e key log s =
     (let p = start_audit ''vercel'' ''Vercel AI Gateway'' key
      in if key = [] then (p\<lparr>notes := ''No API key supplied.''\<rparr>, s)
         else
           (let s = log ''[Vercel] Validating user token'' s;
                (auth_resp, s) = Request e ''GET'' ''https://api.vercel.com/v2/user'' s;
                p = record_auth_response p ''https://api.vercel.com/v2/user'' auth_resp;
                s = log ''[Vercel] Fetching AI Gateway models'' s;
                (list_resp, s) = Request e ''GET'' ''https://ai-gateway.vercel.sh/v1/models'' s;
                p = record_list_response p ''https://ai-gateway.vercel.sh/v1/models'' list_resp;
                list_json = ParseJson (parse e) (resp_body list_resp);
                p = p\<lparr>raw_payload :=
                       AList.update ''auth_response'' (ParseJson (parse e) (resp_body auth_resp))
                         (raw_payload p)\<rparr>;
                p = p\<lparr>raw_payload := AList.update ''models_response'' list_json (raw_payload p)\<rparr>;
                discovered = ExtractModelIds list_json;
                p = record_discovery p discovered list_json
            in if discovered = []
               then (FinalizeMetrics (p\<lparr>notes := ''No models discovered from AI Gateway.''\<rparr>), s)
               else checks_and_prompts e ExtractOpenAIText
                      (\<lambda>model. ''https://ai-gateway.vercel.sh/v1/chat/completions'')
                      ''Vercel'' log discovered vercel_preferred p s))"

definition github_preferred :: "string list" where
  "github_preferred = [''gpt-4.1'', ''gpt-4o'', ''gpt-4o-mini'', ''deepseek-r1'', ''phi-4'']"

definition AuditGitHubToken ::
  "env \<Rightarrow> string \<Rightarrow> string \<Rightarrow> string \<Rightarrow> LogFn \<Rightarrow> run_state \<Rightarrow> ProviderAudit \<times> run_state" where
  "AuditGitHubToken e pid pname token log s =
     (let p = start_audit pid pname token
      in if token = [] then (p\<lparr>notes := ''No API key supplied.''\<rparr>, s)
         else
           (let s = log (''['' @ pname @ ''] Validating GitHub user scope'') s;
                (user_resp, s) = Request e ''GET'' ''https://api.github.com/user'' s;
                p = record_auth_response p ''https://api.github.com/user'' user_resp;
                s = log (''['' @ pname @ ''] Fetching GitHub Models catalog'') s;
                (list_resp, s) = Request e ''GET'' ''https://models.inference.ai.azure.com/models'' s;
                p = record_list_response p ''https://models.inference.ai.azure.com/models'' list_resp;
                list_json = ParseJson (parse e) (resp_body list_resp);
                p = p\<lparr>raw_payload :=
                       AList.update ''user_response'' (ParseJson (parse e) (resp_body user_resp))
                         (raw_payload p)\<rparr>;
                p = p\<lparr>raw_payload := AList.update ''models_response'' list_json (raw_payload p)\<rparr>;
                discovered = ExtractModelIds list_json;
                p = record_discovery p discovered list_json
            in if discovered = []
               then (FinalizeMetrics (p\<lparr>notes := ''No models discovered for this token.''\<rparr>), s)
               else checks_and_prompts e ExtractOpenAIText
                      (\<lambda>model. ''https://models.inference.ai.azure.com/chat/completions'')
                      pname log discovered github_preferred p s))"

section \<open>Audit orchestrator\<close>

text \<open>
  \<^verbatim>\<open>key_of\<close> looks a provider up in the caller's key map and yields the empty string for
  a missing entry.  \<open>unless_canceled launch\<close> is one block
  \<^verbatim>\<open>if (!cancel_requested.load()) { report.providers.push_back(launch); }\<close>.
\<close>

definition key_of :: "(string \<rightharpoonup> string) \<Rightarrow> string \<Rightarrow> string" where
  "key_of keys k = (case keys k of None \<Rightarrow> [] | Some v \<Rightarrow> v)"

definition unless_canceled ::
  "env \<Rightarrow> (run_state \<Rightarrow> ProviderAudit \<times> run_state) \<Rightarrow> ProviderAudit list \<times> run_state
     \<Rightarrow> ProviderAudit list \<times> run_state" where
  "unless_canceled e launch st =
     (let (canceled, s) = load_cancel e (snd st)
      in if \<not> canceled
         then (let (p, s) = launch s in (fst st @ [p], s))
         else (fst st, s))"

definition launch_openrouter :: "env \<Rightarrow> (string \<rightharpoonup> string) \<Rightarrow> run_state \<Rightarrow> ProviderAudit \<times> run_state" where
  "launch_openrouter e keys =
     AuditOpenAICompatible e ''openrouter'' ''OpenRouter'' (key_of keys ''openrouter'')
       ''https://openrouter.ai/api/v1/models'' ''https://openrouter.ai/api/v1/chat/completions''
       [''openai/gpt-4.1'', ''openai/gpt-4o'', ''anthropic/claude-3.7-sonnet'', ''google/gemini-2.5-pro'']
       (push_log e)"

definition launch_mistral :: "env \<Rightarrow> (string \<rightharpoonup> string) \<Rightarrow> run_state \<Rightarrow> ProviderAudit \<times> run_state" where
  "launch_mistral e keys =
     AuditOpenAICompatible e ''mistral'' ''Mistral'' (key_of keys ''mistral'')
       ''https://api.mistral.ai/v1/models'' ''https://api.mistral.ai/v1/chat/completions''
       [''mistral-large-latest'', ''magistral-medium-latest'', ''mistral-medium-latest'',
        ''mistral-small-latest'']
       (push_log e)"

definition launch_groq :: "env \<Rightarrow> (string \<rightharpoonup> string) \<Rightarrow> run_state \<Rightarrow> ProviderAudit \<times> run_state" where
  "launch_groq e keys =
     AuditOpenAICompatible e ''groq'' ''Groq'' (key_of keys ''groq'')
       ''https://api.groq.com/openai/v1/models'' ''https://api.groq.com/openai/v1/chat/completions''
       [''llama-3.3-70b-versatile'', ''deepseek-r1-distill-llama-70b'', ''qwen/qwen3-32b'']
       (push_log e)"

definition launch_ai21 :: "env \<Rightarrow> (string \<rightharpoonup> string) \<Rightarrow> run_state \<Rightarrow> ProviderAudit \<times> run_state" where
  "launch_ai21 e keys =
     AuditOpenAICompatible e ''ai21'' ''AI21'' (key_of keys ''ai21'')
       ''https://api.ai21.com/studio/v1/models'' ''https://api.ai21.com/studio/v1/chat/completions''
       [''jamba-1.5-large'', ''jamba-large'', ''jamba-1.5-mini'', ''jamba-mini'']
       (push_log e)"

definition Run :: "env \<Rightarrow> (string \<rightharpoonup> string) \<Rightarrow> run_state \<Rightarrow> AuditReport \<times> run_state" where
  "Run e keys s =
     (let s = s\<lparr>report_logs := []\<rparr>;
          (generated, s) = NowUtc e s;
          (canceled, s) = load_cancel e s
      in if canceled
         then (let s = push_log e ''Audit canceled before start.'' s
               in (\<lparr>generated_at_utc = generated, run_logs = report_logs s, providers = []\<rparr>, s))
         else
           (let s = push_log e ''Starting full provider audit'' s;
                (p, s) = launch_openrouter e keys s;
                st = ([p], s);
                st = unless_canceled e (AuditGoogle e (key_of keys ''google_ai_studio'') (push_log e)) st;
                st = unless_canceled e (launch_mistral e keys) st;
                st = unless_canceled e (AuditVercel e (key_of keys ''vercel'') (push_log e)) st;
                st = unless_canceled e (launch_groq e keys) st;
                st = unless_canceled e (AuditCohere e (key_of keys ''cohere'') (push_log e)) st;
                st = unless_canceled e (launch_ai21 e keys) st;
                st = unless_canceled e
                       (AuditGitHubToken e ''github_chatgpt'' ''GitHub PAT (chatgpt)''
                          (key_of keys ''github_chatgpt'') (push_log e)) st;
                st = unless_canceled e
                       (AuditGitHubToken e ''github_chatgpt5'' ''GitHub PAT (chatgpt5)''
                          (key_of keys ''github_chatgpt5'') (push_log e)) st;
                st = unless_canceled e
                       (AuditGitHubToken e ''github_deepseek'' ''GitHub PAT (deepseek)''
                          (key_of keys ''github_deepseek'') (push_log e)) st;
                st = unless_canceled e
                       (AuditGitHubToken e ''github_jamba'' ''GitHub PAT (jamba)''
                          (key_of keys ''github_jamba'') (push_log e)) st;
                (canceled, s) = load_cancel e (snd st);
                s = push_log e (if canceled then ''Audit ended early due to cancellation request.''
                                else ''Audit completed.'') s
            in (\<lparr>generated_at_utc = generated, run_logs = report_logs s, providers = fst st\<rparr>, s)))"

text \<open>The ids of the eleven provider instances, in the order \<^verbatim>\<open>Run\<close> starts them.\<close>

definition roster :: "string list" where
  "roster =
     [''openrouter'', ''google_ai_studio'', ''mistral'', ''vercel'', ''groq'', ''cohere'', ''ai21'',
      ''github_chatgpt'', ''github_chatgpt5'', ''github_deepseek'', ''github_jamba'']"

section \<open>Reference notions for runs\<close>

subsection \<open>Request accounting\<close>

text \<open>
  \<open>resp_ok\<close> and \<open>trace_ok\<close> are the test \<^verbatim>\<open>AddTrace\<close> counts a request as successful by,
  on a response and on the trace made of it; \<open>trace_of\<close> is that trace.  \<open>counted p\<close>
  says that the three counters of \<open>p\<close> count its traces: all of them, the successful
  ones and the others.  \<open>request_of\<close> is the request a trace records.
\<close>

definition resp_ok :: "HttpResponse \<Rightarrow> bool" where
  "resp_ok r = (200 \<le> resp_status r \<and> resp_status r < 300 \<and> resp_error r = [])"

definition trace_ok :: "RequestTrace \<Rightarrow> bool" where
  "trace_ok t = (200 \<le> rt_status t \<and> rt_status t < 300 \<and> rt_error t = [])"

definition trace_of :: "string \<Rightarrow> string \<Rightarrow> string \<Rightarrow> HttpResponse \<Rightarrow> RequestTrace" where
  "trace_of step method url r =
     \<lparr> rt_step = step, rt_method = method, rt_url = url,
       rt_status = resp_status r, rt_latency_ms = resp_latency_ms r,
       rt_rate_limit_headers = RateLimitHeaders (resp_headers r),
       rt_response_snippet = Snippet (resp_body r) kSnippetLen,
       rt_error = resp_error r \<rparr>"

definition counted :: "ProviderAudit \<Rightarrow> bool" where
  "counted p =
     (total_requests p = int (length (request_traces p)) \<and>
      successful_requests p = int (length (filter trace_ok (request_traces p))) \<and>
      failed_requests p = int (length (filter (\<lambda>t. \<not> trace_ok t) (request_traces p))))"

definition request_of :: "RequestTrace \<Rightarrow> string \<times> string" where
  "request_of t = (rt_method t, rt_url t)"

text \<open>
  \<open>accounted base p s\<close>: the counters of \<open>p\<close> count its traces, and the requests sent
  since \<open>base\<close> are exactly the requests of its traces, in order.  \<open>log_only log\<close>: the
  log callback sends no request and does not load the flag.  \<open>tally\<close> collects the
  members \<open>accounted\<close> reads, and \<open>done_audit\<close> is the provider a loop ends with,
  returned or not.
\<close>

definition accounted :: "(string \<times> string) list \<Rightarrow> ProviderAudit \<Rightarrow> run_state \<Rightarrow> bool" where
  "accounted base p s = (counted p \<and> sent s = base @ map request_of (request_traces p))"

definition log_only :: "LogFn \<Rightarrow> bool" where
  "log_only log = (\<forall>m s. sent (log m s) = sent s \<and> loads (log m s) = loads s)"

definition tally :: "ProviderAudit \<Rightarrow> RequestTrace list \<times> int \<times> int \<times> int" where
  "tally p = (request_traces p, total_requests p, successful_requests p, failed_requests p)"

definition done_audit :: "ProviderAudit + ProviderAudit \<Rightarrow> ProviderAudit" where
  "done_audit r = (case r of Inl p \<Rightarrow> p | Inr p \<Rightarrow> p)"

text \<open>
  \<open>launch_ok l\<close>: whatever the state, the adapter call \<open>l\<close> returns an accounted
  provider.  \<open>reported base ps s\<close>: every provider of the report is counted and the
  requests sent since \<open>base\<close> are those of their traces, provider after provider.
\<close>

definition launch_ok :: "(run_state \<Rightarrow> ProviderAudit \<times> run_state) \<Rightarrow> bool" where
  "launch_ok l = (\<forall>s. accounted (sent s) (fst (l s)) (snd (l s)))"

definition reported :: "(string \<times> string) list \<Rightarrow> ProviderAudit list \<Rightarrow> run_state \<Rightarrow> bool" where
  "reported base ps s =
     (list_all counted ps \<and>
      sent s = base @ concat (map (\<lambda>p. map request_of (request_traces p)) ps))"

subsection \<open>The model-check phase\<close>

text \<open>
  \<open>model_check_of\<close> is the \<^verbatim>\<open>ModelCheck\<close> the loop builds for a candidate from the
  response to its request: working exactly if the status is in [200, 300) and the
  extracted answer is not empty.  \<open>checks_of e extract k ms\<close> are the checks of the
  candidates \<open>ms\<close> when the request of the first one is the \<open>k\<close>-th of the run.
  \<open>checked e k cands\<close> is the number of candidates checked when the first load of the
  flag in the loop is the \<open>k\<close>-th of the run: the candidates before the first load that
  finds the flag set.
\<close>

definition model_check_of :: "env \<Rightarrow> (json \<Rightarrow> string) \<Rightarrow> string \<Rightarrow> HttpResponse \<Rightarrow> ModelCheck" where
  "model_check_of e extract model resp =
     \<lparr> mc_model = model, mc_status = resp_status resp, mc_latency_ms = resp_latency_ms resp,
       mc_working = (200 \<le> resp_status resp \<and> resp_status resp < 300 \<and>
                     extract (ParseJson (parse e) (resp_body resp)) \<noteq> []),
       mc_error_snippet = Snippet (resp_body resp) kSnippetLen \<rparr>"

fun checks_of :: "env \<Rightarrow> (json \<Rightarrow> string) \<Rightarrow> nat \<Rightarrow> string list \<Rightarrow> ModelCheck list" where
  "checks_of e extract k [] = []"
| "checks_of e extract k (model # rest) =
     model_check_of e extract model (sender e k) # checks_of e extract (Suc k) rest"

fun checked :: "env \<Rightarrow> nat \<Rightarrow> string list \<Rightarrow> nat" where
  "checked e k [] = 0"
| "checked e k (model # rest) =
     (if cancel_requested e k then 0 else Suc (checked e (Suc k) rest))"

text \<open>
  \<open>phase_outcome\<close> describes a provider after the phase: its checks are those of the
  first \<open>n\<close> candidates, where \<open>n\<close> candidates were checked before cancellation; its
  working and failing models are the models of the working and of the other checks;
  and \<^verbatim>\<open>model_used\<close> is the first working model, else the \<^verbatim>\<open>ChooseModel\<close> fallback, if
  all candidates were checked, and still empty if the loop was left on cancellation.
\<close>

definition phase_outcome ::
  "env \<Rightarrow> (json \<Rightarrow> string) \<Rightarrow> nat \<Rightarrow> nat \<Rightarrow> string list \<Rightarrow> string list \<Rightarrow> ProviderAudit \<Rightarrow> bool" where
  "phase_outcome e extract first_load first_request pool preferred q =
     (let cands = TopCandidates pool preferred 8;
          n = checked e first_load cands
      in model_checks q = checks_of e extract first_request (take n cands) \<and>
         working_models q = map mc_model (filter mc_working (model_checks q)) \<and>
         failing_models q = map mc_model (filter (\<lambda>c. \<not> mc_working c) (model_checks q)) \<and>
         model_used q =
           (if n = length cands
            then (case working_models q of w # _ \<Rightarrow> w | [] \<Rightarrow> ChooseModel pool preferred)
            else []))"

text \<open>
  The ids an adapter discovers when its list request is the next request of the run.
\<close>

definition openai_discovered :: "env \<Rightarrow> run_state \<Rightarrow> string list" where
  "openai_discovered e s =
     ExtractModelIds (ParseJson (parse e) (resp_body (sender e (length (sent s)))))"

definition google_discovered :: "env \<Rightarrow> run_state \<Rightarrow> string list" where
  "google_discovered e s =
     sorted_list_of_set (set (fold google_item
       (models_array (ParseJson (parse e) (resp_body (sender e (length (sent s)))))) []))"

definition sorted_verdicts :: "ProviderAudit \<Rightarrow> bool" where
  "sorted_verdicts q =
     (working_models q = map mc_model (filter mc_working (model_checks q)) \<and>
      failing_models q = map mc_model (filter (\<lambda>c. \<not> mc_working c) (model_checks q)) \<and>
      distinct (map mc_model (model_checks q)))"

definition no_checks_yet :: "ProviderAudit \<Rightarrow> bool" where
  "no_checks_yet p =
     (model_checks p = [] \<and> working_models p = [] \<and> failing_models p = [] \<and> model_used p = [])"

definition verdicts :: "ProviderAudit \<Rightarrow> string list \<times> string list \<times> ModelCheck list \<times> string" where
  "verdicts p = (working_models p, failing_models p, model_checks p, model_used p)"

subsection \<open>The scorer\<close>

text \<open>
  The rubric in the words of the specification.  \<open>answer_to tests name\<close> is the answer
  to the prompt \<open>name\<close>: the answer of the first prompt test of that name, in lower
  case, and the empty string when no test has the name.  The three functions
  \<open>reasoning_points\<close>, \<open>coding_points\<close> and \<open>axui_points\<close> are the points an answer earns;
  \<^const>\<open>sublist\<close> is the library's test that a string occurs in another.  \<open>scored p\<close>
  says that the scores of \<open>p\<close> are those points for its own prompt answers and their
  sum, \<open>unscored p\<close> that the scores are still the initial zeros.
\<close>

definition answer_to :: "PromptTest list \<Rightarrow> string \<Rightarrow> string" where
  "answer_to tests name =
     (case find (\<lambda>t. pt_name t = name) tests of
        Some t \<Rightarrow> ToLower (pt_answer t)
      | None \<Rightarrow> [])"

definition reasoning_points :: "string \<Rightarrow> int" where
  "reasoning_points a =
     (if sublist ''5 minute'' a \<or> a = ''5'' \<or> sublist ''five minutes'' a then 1 else 0)"

definition coding_points :: "string \<Rightarrow> int" where
  "coding_points a = (if sublist ''[::-1]'' a \<or> sublist ''reversed('' a then 1 else 0)"

definition axui_points :: "string \<Rightarrow> int" where
  "axui_points a =
     (if sublist ''close_popup'' a \<and> sublist ''btn_continue'' a then 2
      else if sublist ''close_popup'' a \<or> sublist ''btn_continue'' a then 1
      else 0)"

definition scored :: "ProviderAudit \<Rightarrow> bool" where
  "scored p =
     (score_reasoning p = reasoning_points (answer_to (prompt_tests p) ''reasoning'') \<and>
      score_coding p = coding_points (answer_to (prompt_tests p) ''coding'') \<and>
      score_axui p = axui_points (answer_to (prompt_tests p) ''axui'') \<and>
      score_total p = score_reasoning p + score_coding p + score_axui p)"

definition unscored :: "ProviderAudit \<Rightarrow> bool" where
  "unscored p =
     (score_reasoning p = 0 \<and> score_coding p = 0 \<and> score_axui p = 0 \<and> score_total p = 0)"

text \<open>
  \<open>graded p\<close> describes a provider that an adapter returns: if its prompt suite ran to
  the end, so that it holds one prompt test for each prompt of the suite, it is scored;
  otherwise it holds the tests of the prompts asked before the adapter returned, fewer
  than the suite has, and it is not scored.  \<open>marks\<close> collects the members that \<open>graded\<close>
  reads.
\<close>

definition graded :: "ProviderAudit \<Rightarrow> bool" where
  "graded p =
     (if map pt_name (prompt_tests p) = kPromptSuite then scored p
      else unscored p \<and>
           (\<exists>n < length kPromptSuite. map pt_name (prompt_tests p) = take n kPromptSuite))"

definition marks :: "ProviderAudit \<Rightarrow> PromptTest list \<times> int \<times> int \<times> int \<times> int" where
  "marks p = (prompt_tests p, score_reasoning p, score_coding p, score_axui p, score_total p)"

subsection \<open>The orchestrator\<close>

text \<open>
  The ten guarded launches of \<^verbatim>\<open>Run\<close>, in order, and the three stretches of \<^verbatim>\<open>Run\<close>:
  up to the first load of the flag, the eleven launches, and the closing log line.
  \<open>launch_id l pid\<close>: the adapter call \<open>l\<close> returns a provider with id \<open>pid\<close>.
  \<open>flag_stays e\<close>: once a load finds the flag set, every later load does; the
  application stores \<^verbatim>\<open>false\<close> to the flag only before it starts a run.
\<close>

definition later_launches ::
  "env \<Rightarrow> (string \<rightharpoonup> string) \<Rightarrow> (run_state \<Rightarrow> ProviderAudit \<times> run_state) list" where
  "later_launches e keys =
     [AuditGoogle e (key_of keys ''google_ai_studio'') (push_log e),
      launch_mistral e keys,
      AuditVercel e (key_of keys ''vercel'') (push_log e),
      launch_groq e keys,
      AuditCohere e (key_of keys ''cohere'') (push_log e),
      launch_ai21 e keys,
      AuditGitHubToken e ''github_chatgpt'' ''GitHub PAT (chatgpt)''
        (key_of keys ''github_chatgpt'') (push_log e),
      AuditGitHubToken e ''github_chatgpt5'' ''GitHub PAT (chatgpt5)''
        (key_of keys ''github_chatgpt5'') (push_log e),
      AuditGitHubToken e ''github_deepseek'' ''GitHub PAT (deepseek)''
        (key_of keys ''github_deepseek'') (push_log e),
      AuditGitHubToken e ''github_jamba'' ''GitHub PAT (jamba)''
        (key_of keys ''github_jamba'') (push_log e)]"

definition start_run :: "env \<Rightarrow> run_state \<Rightarrow> string \<times> bool \<times> run_state" where
  "start_run e s =
     (let (generated, s) = NowUtc e (s\<lparr>report_logs := []\<rparr>);
          (canceled, s) = load_cancel e s
      in (generated, canceled, s))"

definition all_launched ::
  "env \<Rightarrow> (string \<rightharpoonup> string) \<Rightarrow> run_state \<Rightarrow> ProviderAudit list \<times> run_state" where
  "all_launched e keys s =
     (let (p, s) = launch_openrouter e keys (push_log e ''Starting full provider audit'' s)
      in fold (unless_canceled e) (later_launches e keys) ([p], s))"

definition end_run :: "env \<Rightarrow> run_state \<Rightarrow> run_state" where
  "end_run e s =
     (let (canceled, s) = load_cancel e s
      in push_log e (if canceled then ''Audit ended early due to cancellation request.''
                     else ''Audit completed.'') s)"

text \<open>
  The orchestrator in the words of the specification, to be compared with \<^verbatim>\<open>Run\<close>:
  before starting each provider the flag is loaded; if it is set, no further provider
  is launched and the providers launched so far are returned.  \<open>launches\<close> are the
  eleven launches of \<^verbatim>\<open>Run\<close>, the first with the log line that precedes it.
\<close>

definition launches ::
  "env \<Rightarrow> (string \<rightharpoonup> string) \<Rightarrow> (run_state \<Rightarrow> ProviderAudit \<times> run_state) list" where
  "launches e keys =
     (\<lambda>s. launch_openrouter e keys (push_log e ''Starting full provider audit'' s)) #
     later_launches e keys"

fun spec_launches ::
  "env \<Rightarrow> (run_state \<Rightarrow> ProviderAudit \<times> run_state) list \<Rightarrow> run_state
     \<Rightarrow> ProviderAudit list \<times> run_state" where
  "spec_launches e [] s = ([], s)"
| "spec_launches e (launch # rest) s =
     (let (canceled, s) = load_cancel e s
      in if canceled then ([], s)
         else (let (p, s) = launch s;
                   (ps, s) = spec_launches e rest s
               in (p # ps, s)))"

definition launch_id :: "(run_state \<Rightarrow> ProviderAudit \<times> run_state) \<Rightarrow> string \<Rightarrow> bool" where
  "launch_id l pid = (\<forall>s. provider_id (fst (l s)) = pid)"

definition flag_stays :: "env \<Rightarrow> bool" where
  "flag_stays e = (\<forall>i j. i \<le> j \<and> cancel_requested e i \<longrightarrow> cancel_requested e j)"


section \<open>Sample data\<close>

text \<open>A trace with a given latency and a prompt test with a given answer, for the examples;
  a fresh run state; and an environment whose first response is a model list \<open>models\<close> and
  whose later responses are a chat answer \<open>OK\<close> with status \<open>chat_status\<close>.\<close>

definition trace_of_latency :: "int \<Rightarrow> RequestTrace" where
  "trace_of_latency l =
     \<lparr> rt_step = ''model_check:m'', rt_method = ''POST'', rt_url = ''u'', rt_status = 200,
       rt_latency_ms = l, rt_rate_limit_headers = [], rt_response_snippet = [], rt_error = [] \<rparr>"

definition test_with_answer :: "string \<Rightarrow> string \<Rightarrow> PromptTest" where
  "test_with_answer name a =
     \<lparr> pt_name = name, pt_status = 200, pt_latency_ms = 5, pt_rate_limit_headers = [],
       pt_answer = a, pt_error_snippet = [] \<rparr>"

definition fresh_state :: run_state where
  "fresh_state = \<lparr> loads = 0, sent = [], ticks = 0, report_logs = [], emitted = [] \<rparr>"

definition list_body :: json where
  "list_body = JObject [(''data'', JArray [JString ''m1'', JString ''m2''])]"

definition blank_body :: json where
  "blank_body = JObject [(''data'', JArray [JObject [(''id'', JString [])]])]"

definition chat_body :: json where
  "chat_body = JObject [(''choices'', JArray [JObject [(''message'', JObject [(''content'', JString ''OK'')])]])]"

definition env_probe :: "(nat \<Rightarrow> bool) \<Rightarrow> json \<Rightarrow> int \<Rightarrow> env" where
  "env_probe flag models chat_status =
     \<lparr> parse = (\<lambda>b. if b = ''L'' then Some models else if b = ''C'' then Some chat_body else None),
       cancel_requested = flag,
       sender = (\<lambda>k. if k = 0
                      then \<lparr> resp_status = 200, resp_latency_ms = 5, resp_body = ''L'',
                             resp_headers = [], resp_error = [] \<rparr>
                      else \<lparr> resp_status = chat_status, resp_latency_ms = 7, resp_body = ''C'',
                             resp_headers = [], resp_error = [] \<rparr>),
       clock = (\<lambda>k. ''T''), log_set = False \<rparr>"

definition env_flag :: "(nat \<Rightarrow> bool) \<Rightarrow> env" where
  "env_flag flag = env_probe flag list_body 401"

text \<open>An environment that discovers the one model \<open>m1\<close> and whose every chat answer is \<open>a\<close>.\<close>

definition answer_body :: "string \<Rightarrow> json" where
  "answer_body a =
     JObject [(''choices'', JArray [JObject [(''message'', JObject [(''content'', JString a)])]])]"

definition env_answers :: "(nat \<Rightarrow> bool) \<Rightarrow> string \<Rightarrow> env" where
  "env_answers flag a =
     \<lparr> parse = (\<lambda>b. if b = ''L'' then Some (JObject [(''data'', JArray [JString ''m1''])])
                     else if b = ''C'' then Some (answer_body a) else None),
       cancel_requested = flag,
       sender = (\<lambda>k. if k = 0
                      then \<lparr> resp_status = 200, resp_latency_ms = 5, resp_body = ''L'',
                             resp_headers = [], resp_error = [] \<rparr>
                      else \<lparr> resp_status = 200, resp_latency_ms = 7, resp_body = ''C'',
                             resp_headers = [], resp_error = [] \<rparr>),
       clock = (\<lambda>k. ''T''), log_set = False \<rparr>"

section \<open>Properties of the candidate ranker\<close>

text \<open>\<open>found\<close> is the contiguous-substring test of the library.\<close>

lemma found_iff_sublist: "found s p \<longleftrightarrow> sublist p s"
  by (induction s) (auto simp: sublist_Cons_right)

lemma choose_scan_filter:
  "choose_scan ds (map ToLower ds) p =
     (case filter (\<lambda>d. name_hit (ToLower d) p) ds of [] \<Rightarrow> None | d # _ \<Rightarrow> Some d)"
  by (induction ds) simp_all

lemma choose_prefs_hits:
  "choose_prefs ds (map ToLower ds) prefs =
     (case preferred_hits ds prefs of [] \<Rightarrow> None | d # _ \<Rightarrow> Some d)"
proof (induction prefs)
  case Nil
  show ?case by (simp add: preferred_hits_def)
next
  case (Cons pref prefs)
  show ?case
  proof (cases "filter (\<lambda>d. name_hit (ToLower d) (ToLower pref)) ds")
    case Nil
    with Cons show ?thesis
      by (simp add: choose_scan_filter preferred_hits_def)
  next
    case (Cons d rest)
    then show ?thesis
      by (simp add: choose_scan_filter preferred_hits_def)
  qed
qed

text \<open>
  Claim C7.  \<^verbatim>\<open>ChooseModel\<close> returns the empty string when \<open>discovered\<close> is empty.
  Otherwise it walks the preferred names in order and returns the first discovered id
  whose lower-cased form equals or contains the lower-cased preferred name, that is the
  head of \<open>preferred_hits\<close>; when no preferred name hits, it returns the first
  discovered id.  In particular \<open>ChooseModel [] preferred\<close> is the empty string and
  \<open>ChooseModel [A, B] []\<close> is \<open>A\<close>.
\<close>

theorem ChooseModel_first_preferred_hit:
  "ChooseModel discovered preferred =
     (case discovered of
        [] \<Rightarrow> []
      | front # _ \<Rightarrow> (case preferred_hits discovered preferred of [] \<Rightarrow> front | d # _ \<Rightarrow> d))
   \<and> ChooseModel [] preferred = []
   \<and> ChooseModel [''A'', ''B''] [] = ''A''"
proof -
  have a: "ChooseModel discovered preferred =
     (case discovered of
        [] \<Rightarrow> []
      | front # _ \<Rightarrow> (case preferred_hits discovered preferred of [] \<Rightarrow> front | d # _ \<Rightarrow> d))"
    unfolding ChooseModel_def choose_prefs_hits by (simp split: list.splits)
  have b: "ChooseModel [] preferred = []"
    by (simp add: ChooseModel_def)
  have c: "ChooseModel [''A'', ''B''] [] = ''A''"
    by (simp add: ChooseModel_def)
  from a b c show ?thesis by (intro conjI)
qed

theorem ChooseModel_first_preferred_hit_witness:
  "ChooseModel [''gpt-4o-mini'', ''GPT-4o''] [''claude'', ''gpt-4o''] = ''gpt-4o-mini''"
proof -
  have "preferred_hits [''gpt-4o-mini'', ''GPT-4o''] [''claude'', ''gpt-4o'']
          = [''gpt-4o-mini'', ''GPT-4o'']"
    by code_simp
  with ChooseModel_first_preferred_hit
         [of "[''gpt-4o-mini'', ''GPT-4o'']" "[''claude'', ''gpt-4o'']"]
  show ?thesis by simp
qed

subsection \<open>TopCandidates\<close>

lemma set_first_seen [simp]: "set (first_seen xs) = set xs"
  by (induction xs rule: first_seen.induct) auto

lemma distinct_first_seen [simp]: "distinct (first_seen xs)"
  by (induction xs rule: first_seen.induct) auto

lemma first_seen_append:
  "first_seen (xs @ ys) = first_seen xs @ first_seen (filter (\<lambda>y. y \<notin> set xs) ys)"
proof (induction xs arbitrary: ys rule: first_seen.induct)
  case 1
  show ?case by simp
next
  case (2 x xs)
  have "filter (\<lambda>y. y \<notin> set (filter (\<lambda>y. y \<noteq> x) xs)) (filter (\<lambda>y. y \<noteq> x) ys)
          = filter (\<lambda>y. y \<notin> set (x # xs)) ys"
    by (auto intro: filter_cong)
  with 2 [of "filter (\<lambda>y. y \<noteq> x) ys"] show ?case by simp
qed

lemma push_new_Nil [simp]: "push_new out [] = out"
  by (simp add: push_new_def)

lemma push_new_Cons:
  "push_new out (x # xs) = (if x \<in> set out then push_new out xs else push_new (out @ [x]) xs)"
proof -
  have "filter (\<lambda>y. y \<noteq> x) (filter (\<lambda>y. y \<notin> set out) xs)
          = filter (\<lambda>y. y \<noteq> x \<and> y \<notin> set out) xs"
    by (auto intro: filter_cong)
  then show ?thesis by (simp add: push_new_def)
qed

lemma set_push_new [simp]: "set (push_new out xs) = set out \<union> set xs"
  by (auto simp: push_new_def)

lemma distinct_push_new: "distinct out \<Longrightarrow> distinct (push_new out xs)"
  by (auto simp: push_new_def)

lemma push_new_append: "push_new out (xs @ ys) = push_new (push_new out xs) ys"
  by (induction xs arbitrary: out) (simp_all add: push_new_Cons)

lemma length_push_new: "length out \<le> length (push_new out xs)"
  by (simp add: push_new_def)

lemma take_push_new_twice:
  "n \<le> length (push_new out xs) \<Longrightarrow> take n (push_new (push_new out xs) ys) = take n (push_new out xs)"
  by (simp add: push_new_def [of "push_new out xs"])

lemma top_inner_push_new:
  "used = set out \<Longrightarrow> length out < n \<Longrightarrow>
   top_inner n p ds (out, used) =
     (let full = push_new out (filter (\<lambda>d. name_hit (ToLower d) p) ds)
      in if n \<le> length full then Inl (take n full) else Inr (full, set full))"
proof (induction ds arbitrary: out used)
  case Nil
  then show ?case by simp
next
  case (Cons d ds)
  show ?case
  proof (cases "name_hit (ToLower d) p \<and> d \<notin> used")
    case True
    show ?thesis
    proof (cases "n \<le> length (out @ [d])")
      case True
      with Cons.prems have n: "n = Suc (length out)" by simp
      have "n \<le> length (push_new (out @ [d]) (filter (\<lambda>d. name_hit (ToLower d) p) ds))"
        using length_push_new [of "out @ [d]"] n by (metis length_append_singleton)
      moreover have "take n (push_new (out @ [d]) (filter (\<lambda>d. name_hit (ToLower d) p) ds)) = out @ [d]"
        using n by (simp add: push_new_def)
      ultimately show ?thesis
        using \<open>name_hit (ToLower d) p \<and> d \<notin> used\<close> Cons.prems True
        by (simp add: push_new_Cons Let_def)
    next
      case False
      then have "length (out @ [d]) < n" by simp
      from Cons.IH [OF _ this, of "insert d used"] Cons.prems True False
      show ?thesis by (simp add: push_new_Cons)
    qed
  next
    case False
    with Cons.IH [OF Cons.prems] Cons.prems show ?thesis
      by (auto simp: push_new_Cons Let_def)
  qed
qed

lemma top_preferred_push_new:
  "used = set out \<Longrightarrow> length out < n \<Longrightarrow>
   top_preferred n ds prefs (out, used) =
     (let full = push_new out (preferred_hits ds prefs)
      in if n \<le> length full then Inl (take n full) else Inr (full, set full))"
proof (induction prefs arbitrary: out used)
  case Nil
  then show ?case by (simp add: preferred_hits_def)
next
  case (Cons pref prefs)
  let ?H = "filter (\<lambda>d. name_hit (ToLower d) (ToLower pref)) ds"
  have hits: "preferred_hits ds (pref # prefs) = ?H @ preferred_hits ds prefs"
    by (simp add: preferred_hits_def)
  show ?case
  proof (cases "n \<le> length (push_new out ?H)")
    case True
    then have "n \<le> length (push_new (push_new out ?H) (preferred_hits ds prefs))"
      using length_push_new [of "push_new out ?H" "preferred_hits ds prefs"] by simp
    with True Cons.prems show ?thesis
      by (simp add: top_inner_push_new hits push_new_append take_push_new_twice Let_def)
  next
    case False
    then have "length (push_new out ?H) < n" by simp
    from Cons.IH [OF _ this, of "set (push_new out ?H)"] False Cons.prems
    show ?thesis
      by (simp add: top_inner_push_new hits push_new_append Let_def)
  qed
qed

lemma top_fill_push_new:
  "used = set out \<Longrightarrow> length out < n \<Longrightarrow> top_fill n ds (out, used) = take n (push_new out ds)"
proof (induction ds arbitrary: out used)
  case Nil
  then show ?case by simp
next
  case (Cons d ds)
  show ?case
  proof (cases "d \<in> used")
    case True
    with Cons.IH [OF Cons.prems] Cons.prems show ?thesis
      by (simp add: push_new_Cons)
  next
    case False
    show ?thesis
    proof (cases "n \<le> length (out @ [d])")
      case True
      with Cons.prems have n: "n = Suc (length out)" by simp
      then have "take n (push_new (out @ [d]) ds) = out @ [d]"
        by (simp add: push_new_def)
      with \<open>d \<notin> used\<close> Cons.prems True show ?thesis
        by (simp add: push_new_Cons)
    next
      case F: False
      then have "length (out @ [d]) < n" by simp
      from Cons.IH [OF _ this, of "insert d used"] Cons.prems False F
      show ?thesis by (simp add: push_new_Cons)
    qed
  qed
qed

lemma TopCandidates_take:
  assumes "0 < n"
  shows "TopCandidates ds prefs n = take n (first_seen (preferred_hits ds prefs @ ds))"
proof -
  let ?full = "push_new [] (preferred_hits ds prefs)"
  have fs: "first_seen (preferred_hits ds prefs @ ds) = push_new ?full ds"
    by (simp add: push_new_append [symmetric]) (simp add: push_new_def)
  show ?thesis
  proof (cases "n \<le> length ?full")
    case True
    with assms show ?thesis
      by (simp add: TopCandidates_def top_preferred_push_new fs take_push_new_twice)
  next
    case False
    with assms show ?thesis
      by (simp add: TopCandidates_def top_preferred_push_new fs top_fill_push_new)
  qed
qed

lemma top_inner_zero:
  "top_inner 0 p ds ([], {}) = Inl out \<Longrightarrow> length out \<le> 1"
  by (cases ds) (auto split: if_splits)

lemma top_inner_zero_Inr:
  "top_inner 0 p ds ([], {}) = Inr st \<Longrightarrow> st = ([], {})"
  by (cases ds) (auto split: if_splits)

lemma top_preferred_zero:
  "top_preferred 0 ds prefs ([], {}) = Inl out \<Longrightarrow> length out \<le> 1"
  "top_preferred 0 ds prefs ([], {}) = Inr st \<Longrightarrow> st = ([], {})"
  by (induction prefs) (auto split: sum.splits dest: top_inner_zero top_inner_zero_Inr)

lemma top_fill_zero: "length (top_fill 0 ds ([], {})) \<le> 1"
  by (cases ds) auto

lemma TopCandidates_zero: "length (TopCandidates ds prefs 0) \<le> 1"
  using top_fill_zero
  by (auto simp: TopCandidates_def split: sum.splits dest: top_preferred_zero)

lemma distinct_TopCandidates: "distinct (TopCandidates ds prefs n)"
proof (cases "n = 0")
  case True
  have "length xs \<le> 1 \<Longrightarrow> distinct xs" for xs :: "string list"
    by (cases xs) auto
  with TopCandidates_zero True show ?thesis by blast
next
  case False
  then show ?thesis by (simp add: TopCandidates_take)
qed

text \<open>
  Claim C2, as the code has it.  The result of \<^verbatim>\<open>TopCandidates\<close> never repeats an id.
  For \<open>max_count \<ge> 1\<close> it has at most \<open>max_count\<close> entries and is the first
  \<open>max_count\<close> entries of this list without repetitions: for each preferred name in
  order, every discovered id it hits (not only the first one), in discovered order;
  then the discovered ids in their original order.  In particular
  \<open>TopCandidates [A, B, C] [B] 2 = [B, A]\<close>.
\<close>

theorem TopCandidates_ranking:
  "distinct (TopCandidates discovered preferred max_count) \<and>
   (0 < max_count \<longrightarrow>
      length (TopCandidates discovered preferred max_count) \<le> max_count \<and>
      TopCandidates discovered preferred max_count =
        take max_count (first_seen (preferred_hits discovered preferred @ discovered))) \<and>
   TopCandidates [''A'', ''B'', ''C''] [''B''] 2 = [''B'', ''A'']"
proof -
  have "TopCandidates [''A'', ''B'', ''C''] [''B''] 2 = [''B'', ''A'']"
    by code_simp
  then show ?thesis
    by (simp add: distinct_TopCandidates TopCandidates_take)
qed

theorem TopCandidates_ranking_witness:
  "TopCandidates [''x-a'', ''b'', ''y-a''] [''a''] 3 = [''x-a'', ''y-a'', ''b'']"
proof -
  have "take 3 (first_seen (preferred_hits [''x-a'', ''b'', ''y-a''] [''a''] @ [''x-a'', ''b'', ''y-a'']))
          = [''x-a'', ''y-a'', ''b'']"
    by code_simp
  with TopCandidates_ranking [of "[''x-a'', ''b'', ''y-a'']" "[''a'']" 3]
  show ?thesis by simp
qed

text \<open>
  Where the code leaves the wording of C2: with \<open>max_count = 0\<close> one id is still returned,
  because the size test follows the push; and a preferred name takes all its matches, so
  \<open>y-a\<close> comes before \<open>b\<close> below, while taking only the first match per preferred name
  gives \<open>b\<close> before \<open>y-a\<close>.
\<close>

theorem TopCandidates_counterexample:
  "length (TopCandidates [''A''] [] 0) = 1 \<and>
   TopCandidates [''x-a'', ''b'', ''y-a''] [''a''] 3 = [''x-a'', ''y-a'', ''b''] \<and>
   spec_TopCandidates [''x-a'', ''b'', ''y-a''] [''a''] 3 = [''x-a'', ''b'', ''y-a'']"
  by code_simp


section \<open>Properties of the JSON miner\<close>

lemma add_item_item_id:
  "add_item item out = out @ (case item_id item of Some s \<Rightarrow> [s] | None \<Rightarrow> [])"
  by (simp add: add_item_def item_id_def field_def split: json.splits option.splits)

lemma fold_add_item: "fold add_item items out = out @ List.map_filter item_id items"
  by (induction items arbitrary: out)
     (simp_all add: add_item_item_id List.map_filter_simps split: option.splits)

lemma add_array_ids: "add arr out = out @ array_ids (Some arr)"
  by (simp add: add_def array_ids_def fold_add_item split: json.splits)

lemma collected_ids_array: "collected_ids (JArray items) = List.map_filter item_id items"
  by (simp add: collected_ids_def add_array_ids array_ids_def)

lemma collected_ids_object:
  "collected_ids (JObject kvs) = array_ids (map_of kvs ''data'') @ array_ids (map_of kvs ''models'')"
  by (simp add: collected_ids_def add_array_ids field_def array_ids_def split: option.splits)

text \<open>
  Claim C9.  \<^verbatim>\<open>ExtractModelIds\<close> never returns an identifier twice, whatever the JSON
  payload; the result is in ascending order.  Its elements are the ids of the items of
  a top-level array, or of the array members \<^verbatim>\<open>data\<close> and \<^verbatim>\<open>models\<close> of a top-level
  object, where an item gives its string value, or an object's string \<^verbatim>\<open>id\<close>, or else
  its string \<^verbatim>\<open>name\<close>.
\<close>

theorem ExtractModelIds_unique:
  "distinct (ExtractModelIds j) \<and>
   sorted (ExtractModelIds j) \<and>
   set (ExtractModelIds (JArray items)) = set (List.map_filter item_id items) \<and>
   set (ExtractModelIds (JObject kvs)) =
     set (array_ids (map_of kvs ''data'')) \<union> set (array_ids (map_of kvs ''models''))"
  by (simp add: ExtractModelIds_def collected_ids_array collected_ids_object)

theorem ExtractModelIds_unique_witness:
  "ExtractModelIds
     (JObject [(''data'', JArray [JObject [(''id'', JString ''b'')], JString ''a'',
                                  JObject [(''name'', JString ''b'')], JInt 3])])
     = [''a'', ''b''] \<and>
   distinct (ExtractModelIds
     (JObject [(''data'', JArray [JObject [(''id'', JString ''b'')], JString ''a'',
                                  JObject [(''name'', JString ''b'')], JInt 3])]))"
proof -
  let ?j = "JObject [(''data'', JArray [JObject [(''id'', JString ''b'')], JString ''a'',
                                  JObject [(''name'', JString ''b'')], JInt 3])]"
  have "ExtractModelIds ?j = [''a'', ''b'']"
    by code_simp
  with ExtractModelIds_unique [of ?j] show ?thesis by simp
qed



subsection \<open>ExtractMaxContext\<close>

lemma candidate_values_leaf [simp]:
  "candidate_values JNull = {}" "candidate_values (JBool b) = {}"
  "candidate_values (JInt i) = {}" "candidate_values (JUInt u) = {}"
  "candidate_values JFloat = {}" "candidate_values (JString s) = {}"
  "candidate_values (JObject []) = {}" "candidate_values (JArray []) = {}"
  by (auto simp: candidate_values_def elim: member_of.cases)

lemma member_of_Cons_object:
  "member_of (JObject ((k, v) # kvs)) k' v' \<longleftrightarrow>
     (k' = k \<and> v' = v) \<or> member_of v k' v' \<or> member_of (JObject kvs) k' v'"
  by (subst member_of.simps, subst member_of.simps [of "JObject kvs"]) auto

lemma member_of_Cons_array:
  "member_of (JArray (x # xs)) k v \<longleftrightarrow> member_of x k v \<or> member_of (JArray xs) k v"
  by (subst member_of.simps, subst member_of.simps [of "JArray xs"]) auto

lemma candidate_values_Cons_object:
  "candidate_values (JObject ((k, v) # kvs)) =
     own_value k v \<union> candidate_values v \<union> candidate_values (JObject kvs)"
  unfolding candidate_values_def member_of_Cons_object own_value_def
  by (auto split: option.splits)

lemma candidate_values_Cons_array:
  "candidate_values (JArray (x # xs)) = candidate_values x \<union> candidate_values (JArray xs)"
  unfolding candidate_values_def member_of_Cons_array by auto

lemma finite_own_value [simp]: "finite (own_value k v)"
  by (simp add: own_value_def split: option.splits)

lemma Max_insert_Max:
  fixes b :: int
  assumes "finite A" "finite B"
  shows "Max (insert (Max (insert b A)) B) = Max (insert b (A \<union> B))"
proof -
  let ?a = "Max (insert b A)"
  let ?m = "Max (insert ?a B)"
  have a_in: "?a \<in> insert b A"
    using assms by (intro Max_in) auto
  have m_in: "?m \<in> insert ?a B"
    using assms by (intro Max_in) auto
  have a_ge: "y \<le> ?a" if "y \<in> insert b A" for y
    using that assms by (intro Max_ge) auto
  have m_ge: "y \<le> ?m" if "y \<in> insert ?a B" for y
    using that assms by (intro Max_ge) auto
  show ?thesis
  proof (rule Max_eqI [symmetric])
    show "finite (insert b (A \<union> B))"
      using assms by simp
    show "y \<le> ?m" if "y \<in> insert b (A \<union> B)" for y
    proof (cases "y \<in> B")
      case True
      then show ?thesis by (intro m_ge) simp
    next
      case False
      with that have "y \<le> ?a" by (intro a_ge) auto
      also have "?a \<le> ?m" by (intro m_ge) simp
      finally show ?thesis .
    qed
    show "?m \<in> insert b (A \<union> B)"
      using a_in m_in by auto
  qed
qed

lemma scan_Max:
  "finite (candidate_values j) \<and> scan j key best = Max (insert best (candidate_values j))"
  "finite (candidate_values (JObject kvs)) \<and>
     scan_members kvs best = Max (insert best (candidate_values (JObject kvs)))"
  "finite (candidate_values (JArray items)) \<and>
     scan_items items key best = Max (insert best (candidate_values (JArray items)))"
proof (induction j key best and kvs best and items key best
       rule: scan_scan_members_scan_items.induct)
  case (10 k v kvs best)
  define b' where "b' = Max (insert best (own_value k v))"
  have step: "(case get_long_long v of
                 Some n \<Rightarrow> if candidate (ToLower k) then max best n else best
               | None \<Rightarrow> best) = b'"
    by (simp add: b'_def own_value_def max_def split: option.splits)
  have fin: "finite (candidate_values v)" "finite (candidate_values (JObject kvs))"
    using 10 [OF refl step [symmetric]] by simp_all
  have "scan_members ((k, v) # kvs) best =
          Max (insert (Max (insert b' (candidate_values v))) (candidate_values (JObject kvs)))"
    using 10 [OF refl step [symmetric]] by (simp add: Let_def step)
  also have "\<dots> = Max (insert b' (candidate_values v \<union> candidate_values (JObject kvs)))"
    using fin by (rule Max_insert_Max)
  also have "\<dots> = Max (insert best (own_value k v \<union> (candidate_values v \<union> candidate_values (JObject kvs))))"
    unfolding b'_def using fin by (intro Max_insert_Max) simp_all
  finally show ?case
    using fin by (simp add: candidate_values_Cons_object Un_assoc)
next
  case (12 item items key best)
  then show ?case
    by (simp add: candidate_values_Cons_array Max_insert_Max)
qed simp_all

lemma ExtractMaxContext_Max:
  "ExtractMaxContext j = Max (insert (- 1) (candidate_values j))"
  by (simp add: ExtractMaxContext_def scan_Max)

lemma candidate_values_nest: "candidate_values (nest n j) = candidate_values j"
proof (induction n)
  case 0
  show ?case by simp
next
  case (Suc n)
  have "own_value ''data'' v = {}" for v
    by (simp add: own_value_def candidate_def ToLower_def lower_char_def)
  with Suc show ?case
    by (simp add: candidate_values_Cons_object candidate_values_Cons_array)
qed

lemma ExtractMaxContext_nest: "ExtractMaxContext (nest n j) = ExtractMaxContext j"
  by (simp add: ExtractMaxContext_Max candidate_values_nest)

lemma nesting_pos [simp]: "nesting j \<noteq> 0"
  by (cases j) simp_all

lemma scan_within_scan:
  "scan_within frames j key best = (if nesting j \<le> frames then Some (scan j key best) else None)"
  "scan_members_within frames kvs best =
     (if nesting_members kvs \<le> frames then Some (scan_members kvs best) else None)"
  "scan_items_within frames items key best =
     (if nesting_items items \<le> frames then Some (scan_items items key best) else None)"
proof (induction frames j key best and frames kvs best and frames items key best
       rule: scan_within_scan_members_within_scan_items_within.induct)
  case (11 frames k v kvs best)
  define b' where "b' = (case get_long_long v of
                     Some n \<Rightarrow> if candidate (ToLower k) then max best n else best
                   | None \<Rightarrow> best)"
  note child = 11(1) [OF refl b'_def]
  show ?case
  proof (cases "nesting v \<le> frames")
    case True
    with child have s: "scan_within frames v (ToLower k) b' = Some (scan v (ToLower k) b')"
      by simp
    from 11(2) [OF refl b'_def s] True s show ?thesis
      by (simp add: Let_def b'_def)
  next
    case False
    with child show ?thesis
      by (simp add: Let_def b'_def)
  qed
next
  case (13 frames item items key best)
  show ?case
  proof (cases "nesting item \<le> frames")
    case True
    with 13(1) have s: "scan_within frames item key best = Some (scan item key best)"
      by simp
    from 13(2) [OF s] True s show ?thesis
      by simp
  next
    case False
    with 13(1) show ?thesis by simp
  qed
qed simp_all

lemma ExtractMaxContext_within_eq:
  "ExtractMaxContext_within frames j =
     (if nesting j \<le> frames then Some (ExtractMaxContext j) else None)"
  by (simp add: ExtractMaxContext_within_def ExtractMaxContext_def scan_within_scan)

lemma nesting_nest: "nesting (nest n j) = 2 * n + nesting j"
  by (induction n) simp_all

text \<open>
  Claim C3, as the code has it.  The walk of \<^verbatim>\<open>ExtractMaxContext\<close> returns on every JSON
  value whose levels the call stack holds, one frame for each level of nesting, and for
  every document there is a stack that holds it.  Whenever the walk returns, its
  result is the greatest of \<open>-1\<close> and the values, read as 64-bit signed integers, of all
  integer members with a candidate key at any depth of the document; this is \<open>-1\<close>
  when there is none.  Nothing is said here of a document nested deeper than the stack
  holds.
\<close>

theorem ExtractMaxContext_greatest_candidate:
  "finite (candidate_values j) \<and>
   (nesting j \<le> frames \<longrightarrow>
      ExtractMaxContext_within frames j = Some (Max (insert (- 1) (candidate_values j)))) \<and>
   (ExtractMaxContext_within frames j = Some v \<longrightarrow> v = Max (insert (- 1) (candidate_values j))) \<and>
   (candidate_values j = {} \<and> nesting j \<le> frames \<longrightarrow> ExtractMaxContext_within frames j = Some (- 1)) \<and>
   (\<exists>enough. ExtractMaxContext_within enough j \<noteq> None)"
proof -
  have "finite (candidate_values j)"
    using scan_Max(1) [of j "[]" 0] by simp
  moreover have "nesting j \<le> frames \<longrightarrow>
      ExtractMaxContext_within frames j = Some (Max (insert (- 1) (candidate_values j)))"
    by (simp add: ExtractMaxContext_within_eq ExtractMaxContext_Max)
  moreover have "ExtractMaxContext_within frames j = Some v \<longrightarrow>
      v = Max (insert (- 1) (candidate_values j))"
    by (auto simp: ExtractMaxContext_within_eq ExtractMaxContext_Max split: if_splits)
  moreover have "candidate_values j = {} \<and> nesting j \<le> frames \<longrightarrow>
      ExtractMaxContext_within frames j = Some (- 1)"
    by (simp add: ExtractMaxContext_within_eq ExtractMaxContext_Max)
  moreover have "ExtractMaxContext_within (nesting j) j \<noteq> None"
    by (simp add: ExtractMaxContext_within_eq)
  then have "\<exists>enough. ExtractMaxContext_within enough j \<noteq> None" ..
  ultimately show ?thesis by (intro conjI)
qed

theorem ExtractMaxContext_greatest_candidate_witness:
  "ExtractMaxContext_within 5
     (JObject [(''data'', JArray [JObject [(''id'', JString ''m''), (''context_length'', JUInt 8192),
                                            (''max_output_tokens'', JUInt 99999)],
                                  JObject [(''top_provider'', JObject [(''Context_Length'', JUInt 32768)])]])])
   = Some 32768 \<and>
   ExtractMaxContext_within 3 (JObject [(''data'', JArray [JString ''m'']), (''count'', JFloat)]) = Some (- 1)"
proof -
  let ?j = "JObject [(''data'', JArray [JObject [(''id'', JString ''m''), (''context_length'', JUInt 8192),
                                            (''max_output_tokens'', JUInt 99999)],
                                  JObject [(''top_provider'', JObject [(''Context_Length'', JUInt 32768)])]])]"
  have keys: "\<not> candidate (ToLower ''data'')" "\<not> candidate (ToLower ''id'')"
    "candidate (ToLower ''context_length'')" "\<not> candidate (ToLower ''max_output_tokens'')"
    "\<not> candidate (ToLower ''top_provider'')" "candidate (ToLower ''Context_Length'')"
    by code_simp+
  have found_values: "candidate_values ?j = {8192, 32768}"
    by (auto simp: candidate_values_Cons_object candidate_values_Cons_array own_value_def
          get_long_long_def keys)
  have levels: "nesting ?j \<le> 5"
    by simp
  from ExtractMaxContext_greatest_candidate [of ?j 5] levels
  have "ExtractMaxContext_within 5 ?j = Some (Max (insert (- 1) (candidate_values ?j)))"
    by blast
  then have first: "ExtractMaxContext_within 5 ?j = Some 32768"
    unfolding found_values by simp
  let ?k = "JObject [(''data'', JArray [JString ''m'']), (''count'', JFloat)]"
  have none: "candidate_values ?k = {} \<and> nesting ?k \<le> 3"
    by (simp add: candidate_values_Cons_object candidate_values_Cons_array own_value_def
          get_long_long_def)
  with ExtractMaxContext_greatest_candidate [of ?k 3]
  have second: "ExtractMaxContext_within 3 ?k = Some (- 1)"
    by blast
  from first second show ?thesis by (intro conjI)
qed

text \<open>
  Where the code leaves the wording of C3.  A single candidate \<open>-5\<close> is below the start
  value, so \<open>-1\<close> is returned and not the greatest candidate.  No fixed depth stops the
  recursion: on a stack with room for \<open>2002\<close> calls a candidate below \<open>1000\<close> objects and
  \<open>1000\<close> arrays is found, so the walk went \<open>2002\<close> calls deep, and with room for \<open>2001\<close>
  calls the same walk overflows the stack.  And the unsigned value \<open>2^64 - 1\<close> is read
  as \<open>-1\<close>.
\<close>

theorem ExtractMaxContext_counterexample:
  "ExtractMaxContext_within 2 (JObject [(''context'', JInt (- 5))]) = Some (- 1) \<and>
   candidate_values (JObject [(''context'', JInt (- 5))]) = {- 5} \<and>
   ExtractMaxContext_within 2002 (nest 1000 (JObject [(''context'', JUInt 4096)])) = Some 4096 \<and>
   ExtractMaxContext_within 2001 (nest 1000 (JObject [(''context'', JUInt 4096)])) = None \<and>
   ExtractMaxContext_within 2 (JObject [(''context'', JUInt 18446744073709551615)]) = Some (- 1)"
proof -
  have a: "ExtractMaxContext_within 2 (JObject [(''context'', JInt (- 5))]) = Some (- 1)"
    by (simp add: ExtractMaxContext_within_def numeral_2_eq_2 get_long_long_def candidate_def
          ToLower_def lower_char_def)
  have b: "candidate_values (JObject [(''context'', JInt (- 5))]) = {- 5}"
    by (simp add: candidate_values_Cons_object own_value_def get_long_long_def candidate_def
          ToLower_def lower_char_def)
  have v: "ExtractMaxContext (JObject [(''context'', JUInt 4096)]) = 4096"
    by (simp add: ExtractMaxContext_def get_long_long_def candidate_def ToLower_def lower_char_def)
  have n: "nesting (nest 1000 (JObject [(''context'', JUInt 4096)])) = 2002"
    by (simp add: nesting_nest)
  have c: "ExtractMaxContext_within 2002 (nest 1000 (JObject [(''context'', JUInt 4096)])) = Some 4096"
    by (simp add: ExtractMaxContext_within_eq n ExtractMaxContext_nest v)
  have d: "ExtractMaxContext_within 2001 (nest 1000 (JObject [(''context'', JUInt 4096)])) = None"
    by (simp add: ExtractMaxContext_within_eq n)
  have f: "ExtractMaxContext_within 2 (JObject [(''context'', JUInt 18446744073709551615)]) = Some (- 1)"
    by (simp add: ExtractMaxContext_within_def numeral_2_eq_2 get_long_long_def candidate_def
          ToLower_def lower_char_def)
  from a b c d f show ?thesis by (intro conjI)
qed


section \<open>Properties of the recorder and of the scorer\<close>

lemma update_fresh: "k \<notin> fst ` set out \<Longrightarrow> AList.update k v out = out @ [(k, v)]"
  by (induction out) auto

lemma RateLimitHeaders_loop_filter:
  "distinct (map fst hs) \<Longrightarrow> fst ` set hs \<inter> fst ` set out = {} \<Longrightarrow>
   RateLimitHeaders_loop hs out = out @ filter (\<lambda>(k, v). rate_limit_key k) hs"
proof (induction hs arbitrary: out)
  case Nil
  show ?case by simp
next
  case (Cons h hs)
  obtain k v where h: "h = (k, v)" by (cases h)
  show ?case
  proof (cases "rate_limit_key k")
    case True
    from Cons.prems h have fresh: "k \<notin> fst ` set out" by auto
    from Cons.prems h have "fst ` set hs \<inter> fst ` set (out @ [(k, v)]) = {}"
      by (auto simp: image_iff)
    with Cons.IH [of "out @ [(k, v)]"] Cons.prems h True fresh show ?thesis
      by (simp add: update_fresh)
  next
    case False
    from Cons.prems h have "fst ` set hs \<inter> fst ` set out = {}" by auto
    with Cons.IH [of out] Cons.prems h False show ?thesis by simp
  qed
qed

lemma RateLimitHeaders_filter:
  "distinct (map fst hs) \<Longrightarrow> RateLimitHeaders hs = filter (\<lambda>(k, v). rate_limit_key k) hs"
  by (simp add: RateLimitHeaders_def RateLimitHeaders_loop_filter)

text \<open>
  Claim C4, as the code has it.  For every header map (a list of entries with distinct
  keys), \<^verbatim>\<open>RateLimitHeaders\<close> returns exactly the entries whose key, as it is stored,
  contains one of \<open>rate\<close>, \<open>limit\<close>, \<open>quota\<close>, \<open>retry\<close>; the function does no
  lower-casing.  For the maps the Sender builds, whose keys are lower-cased when they are
  stored, these are the entries whose lower-cased key contains one of the four.  In
  particular the map with \<open>x-ratelimit-remaining\<close> and \<open>content-type\<close> is filtered to
  its entry \<open>x-ratelimit-remaining\<close>.
\<close>

theorem RateLimitHeaders_filters_keys_as_stored:
  "(distinct (map fst hs) \<longrightarrow>
      RateLimitHeaders hs = filter (\<lambda>(k, v). rate_limit_key k) hs) \<and>
   (sender_headers hs \<longrightarrow>
      RateLimitHeaders hs = filter (\<lambda>(k, v). rate_limit_key (ToLower k)) hs) \<and>
   RateLimitHeaders [(''content-type'', ''json''), (''x-ratelimit-remaining'', ''10'')]
     = [(''x-ratelimit-remaining'', ''10'')]"
proof -
  have "filter (\<lambda>(k, v). rate_limit_key k) hs = filter (\<lambda>(k, v). rate_limit_key (ToLower k)) hs"
    if "list_all (\<lambda>(k, v). ToLower k = k) hs"
    using that by (induction hs) auto
  moreover have "RateLimitHeaders [(''content-type'', ''json''), (''x-ratelimit-remaining'', ''10'')]
     = [(''x-ratelimit-remaining'', ''10'')]"
    by code_simp
  ultimately show ?thesis
    by (simp add: RateLimitHeaders_filter sender_headers_def)
qed

theorem RateLimitHeaders_filters_keys_as_stored_witness:
  "RateLimitHeaders [(''content-type'', ''json''), (''retry-after'', ''7''), (''x-quota-left'', ''3'')]
     = [(''retry-after'', ''7''), (''x-quota-left'', ''3'')]"
proof -
  let ?hs = "[(''content-type'', ''json''), (''retry-after'', ''7''), (''x-quota-left'', ''3'')]"
  have h: "sender_headers ?hs"
    by code_simp
  have e: "filter (\<lambda>(k, v). rate_limit_key (ToLower k)) ?hs
             = [(''retry-after'', ''7''), (''x-quota-left'', ''3'')]"
    by code_simp
  from RateLimitHeaders_filters_keys_as_stored [of ?hs] h
  have "RateLimitHeaders ?hs = filter (\<lambda>(k, v). rate_limit_key (ToLower k)) ?hs"
    by blast
  then show ?thesis by (simp only: e)
qed

text \<open>
  Where the code leaves the wording of C4: a key in mixed case whose lower-cased form
  contains \<open>rate\<close> is dropped.
\<close>

theorem RateLimitHeaders_counterexample:
  "RateLimitHeaders [(''X-RateLimit-Remaining'', ''10'')] = [] \<and>
   rate_limit_key (ToLower ''X-RateLimit-Remaining'')"
  by code_simp

subsection \<open>FinalizeMetrics\<close>

lemma wrap64_in_range: "- (2 ^ 63) \<le> n \<Longrightarrow> n < 2 ^ 63 \<Longrightarrow> wrap64 n = n"
  by (simp add: wrap64_def)

lemma accumulate_exact:
  "\<forall>l \<in> set lats. 0 \<le> l \<Longrightarrow> 0 \<le> init \<Longrightarrow> init + sum_list lats < 2 ^ 63 \<Longrightarrow>
   accumulate lats init = init + sum_list lats"
proof (induction lats arbitrary: init)
  case Nil
  show ?case by (simp add: accumulate_def)
next
  case (Cons l lats)
  from Cons.prems have l: "0 \<le> l" and rest: "\<forall>x \<in> set lats. 0 \<le> x"
    by simp_all
  from rest have "0 \<le> sum_list lats"
    by (intro sum_list_nonneg) simp
  with Cons.prems(2,3) l have small: "- (2 ^ 63) \<le> init + l" "init + l < 2 ^ 63"
    by simp_all
  have "accumulate (l # lats) init = accumulate lats (wrap64 (init + l))"
    by (simp add: accumulate_def)
  also have "\<dots> = accumulate lats (init + l)"
    using small by (simp only: wrap64_in_range)
  also have "\<dots> = (init + l) + sum_list lats"
    using Cons.prems(2,3) l by (intro Cons.IH rest) simp_all
  finally show ?case by simp
qed

lemma quot_nonneg: "0 \<le> a \<Longrightarrow> 0 < b \<Longrightarrow> quot a b = a div b"
  by (cases "a = 0") (simp_all add: quot_def)

lemma FinalizeMetrics_in_range:
  assumes "filter (\<lambda>l. 0 \<le> l) (map rt_latency_ms (request_traces p)) \<noteq> []"
    and "sum_list (filter (\<lambda>l. 0 \<le> l) (map rt_latency_ms (request_traces p))) < 2 ^ 63"
  shows "avg_latency_ms (FinalizeMetrics p) =
           sum_list (filter (\<lambda>l. 0 \<le> l) (map rt_latency_ms (request_traces p))) div
             int (length (filter (\<lambda>l. 0 \<le> l) (map rt_latency_ms (request_traces p))))"
proof -
  let ?lats = "filter (\<lambda>l. 0 \<le> l) (map rt_latency_ms (request_traces p))"
  from assms(1) have "0 < length ?lats"
    using length_greater_0_conv by blast
  then have n: "0 < int (length ?lats)"
    by (simp only: of_nat_0_less_iff)
  have acc: "accumulate ?lats 0 = 0 + sum_list ?lats"
    using assms(2) by (intro accumulate_exact) simp_all
  have nonneg: "0 \<le> sum_list ?lats"
    by (rule sum_list_nonneg) simp
  have "avg_latency_ms (FinalizeMetrics p) = quot (accumulate ?lats 0) (int (length ?lats))"
    unfolding FinalizeMetrics_def Let_def using assms(1) by (simp del: filter_map)
  also have "\<dots> = sum_list ?lats div int (length ?lats)"
    using nonneg n by (simp only: acc add_0 quot_nonneg)
  finally show ?thesis .
qed

lemma FinalizeMetrics_unchanged:
  "filter (\<lambda>l. 0 \<le> l) (map rt_latency_ms (request_traces p)) = [] \<Longrightarrow>
   avg_latency_ms (FinalizeMetrics p) = avg_latency_ms p"
  unfolding FinalizeMetrics_def Let_def by (simp del: filter_map)

text \<open>
  Beyond the range: two latencies of \<open>2^63 - 1\<close> add up to \<open>- 2\<close> in 64 bits, and the
  average stored is \<open>- 1\<close>.
\<close>

lemma FinalizeMetrics_wraps:
  "avg_latency_ms (FinalizeMetrics
     (new_ProviderAudit\<lparr>request_traces :=
        map trace_of_latency [9223372036854775807, 9223372036854775807]\<rparr>)) = - 1"
  by (simp add: FinalizeMetrics_def Let_def trace_of_latency_def accumulate_def wrap64_def quot_def)

text \<open>
  Claim C8.  Where the sum of the non-negative latencies of the request traces fits
  into 64 bits, as every sum of latencies that a clock can measure does:
  on a provider whose average is still at its initial \<open>-1\<close> (nothing but
  \<^verbatim>\<open>FinalizeMetrics\<close> writes the member), \<^verbatim>\<open>FinalizeMetrics\<close> sets \<^verbatim>\<open>avg_latency_ms\<close> to
  the sum of the non-negative latencies of the request traces divided by their number,
  and leaves \<open>-1\<close> when there is none.  The quotient is the truncated mean: it is not
  negative, and the sum lies between it times the count and its successor times the
  count.  Latencies \<open>[10, 20, 30]\<close> give \<open>20\<close>; an empty trace list leaves the member as
  it is, and a fresh \<^verbatim>\<open>ProviderAudit\<close> holds \<open>-1\<close>.
\<close>

theorem FinalizeMetrics_average:
  "(avg_latency_ms p = - 1 \<and>
    sum_list (filter (\<lambda>l. 0 \<le> l) (map rt_latency_ms (request_traces p))) < 2 ^ 63 \<longrightarrow>
      avg_latency_ms (FinalizeMetrics p) =
        (let lats = filter (\<lambda>l. 0 \<le> l) (map rt_latency_ms (request_traces p))
         in if lats = [] then - 1 else sum_list lats div int (length lats))) \<and>
   (filter (\<lambda>l. 0 \<le> l) (map rt_latency_ms (request_traces p)) \<noteq> [] \<and>
    sum_list (filter (\<lambda>l. 0 \<le> l) (map rt_latency_ms (request_traces p))) < 2 ^ 63 \<longrightarrow>
      (let lats = filter (\<lambda>l. 0 \<le> l) (map rt_latency_ms (request_traces p));
           avg = avg_latency_ms (FinalizeMetrics p)
       in 0 \<le> avg \<and> avg * int (length lats) \<le> sum_list lats \<and>
          sum_list lats < (avg + 1) * int (length lats))) \<and>
   (map rt_latency_ms (request_traces p) = [10, 20, 30] \<longrightarrow>
      avg_latency_ms (FinalizeMetrics p) = 20) \<and>
   (request_traces p = [] \<longrightarrow> avg_latency_ms (FinalizeMetrics p) = avg_latency_ms p) \<and>
   avg_latency_ms new_ProviderAudit = - 1"
proof -
  let ?lats = "filter (\<lambda>l. 0 \<le> l) (map rt_latency_ms (request_traces p))"
  let ?n = "int (length ?lats)"
  have nonneg: "0 \<le> sum_list ?lats"
    by (rule sum_list_nonneg) simp
  have mean: "0 \<le> sum_list ?lats div ?n \<and> sum_list ?lats div ?n * ?n \<le> sum_list ?lats \<and>
              sum_list ?lats < (sum_list ?lats div ?n + 1) * ?n" if "?lats \<noteq> []"
  proof -
    from that have "0 < length ?lats"
      using length_greater_0_conv by blast
    then have n: "0 < ?n"
      by (simp only: of_nat_0_less_iff)
    have "0 \<le> sum_list ?lats div ?n"
      using nonneg n by (simp add: pos_imp_zdiv_nonneg_iff)
    moreover have "sum_list ?lats div ?n * ?n \<le> sum_list ?lats"
      using n by (metis div_mult_mod_eq le_add_same_cancel1 pos_mod_sign)
    moreover have "sum_list ?lats < (sum_list ?lats div ?n + 1) * ?n"
    proof -
      have "sum_list ?lats = sum_list ?lats div ?n * ?n + sum_list ?lats mod ?n" by simp
      also have "\<dots> < sum_list ?lats div ?n * ?n + ?n"
        using n by (intro add_strict_left_mono pos_mod_bound)
      finally show ?thesis by (simp add: algebra_simps)
    qed
    ultimately show ?thesis by blast
  qed
  have c1: "avg_latency_ms p = - 1 \<and> sum_list ?lats < 2 ^ 63 \<longrightarrow>
      avg_latency_ms (FinalizeMetrics p) =
        (let lats = ?lats in if lats = [] then - 1 else sum_list lats div int (length lats))"
  proof (cases "?lats = []")
    case True
    from FinalizeMetrics_unchanged [OF True] True show ?thesis
      unfolding Let_def by (simp only: if_True) simp
  next
    case False
    show ?thesis
    proof
      assume "avg_latency_ms p = - 1 \<and> sum_list ?lats < 2 ^ 63"
      then have "sum_list ?lats < 2 ^ 63" by blast
      from FinalizeMetrics_in_range [OF False this] False
      show "avg_latency_ms (FinalizeMetrics p) =
        (let lats = ?lats in if lats = [] then - 1 else sum_list lats div int (length lats))"
        unfolding Let_def by (simp only: if_False)
    qed
  qed
  have c2: "?lats \<noteq> [] \<and> sum_list ?lats < 2 ^ 63 \<longrightarrow>
      (let lats = ?lats; avg = avg_latency_ms (FinalizeMetrics p)
       in 0 \<le> avg \<and> avg * int (length lats) \<le> sum_list lats \<and>
          sum_list lats < (avg + 1) * int (length lats))"
  proof
    assume h: "?lats \<noteq> [] \<and> sum_list ?lats < 2 ^ 63"
    then have ne: "?lats \<noteq> []" and small: "sum_list ?lats < 2 ^ 63"
      by blast+
    from FinalizeMetrics_in_range [OF ne small]
    have "avg_latency_ms (FinalizeMetrics p) = sum_list ?lats div ?n" .
    with mean [OF ne] show "let lats = ?lats; avg = avg_latency_ms (FinalizeMetrics p)
       in 0 \<le> avg \<and> avg * int (length lats) \<le> sum_list lats \<and>
          sum_list lats < (avg + 1) * int (length lats)"
      unfolding Let_def by (simp only:)
  qed
  have c3: "map rt_latency_ms (request_traces p) = [10, 20, 30] \<longrightarrow>
      avg_latency_ms (FinalizeMetrics p) = 20"
  proof
    assume l: "map rt_latency_ms (request_traces p) = [10, 20, 30]"
    then have f: "?lats = [10, 20, 30]"
      by (simp del: filter_map)
    then have "?lats \<noteq> []" and "sum_list ?lats < 2 ^ 63"
      by (simp_all only:, simp_all)
    from FinalizeMetrics_in_range [OF this] show "avg_latency_ms (FinalizeMetrics p) = 20"
      unfolding f by simp
  qed
  have c4: "request_traces p = [] \<longrightarrow> avg_latency_ms (FinalizeMetrics p) = avg_latency_ms p"
    by (simp add: FinalizeMetrics_def)
  have c5: "avg_latency_ms new_ProviderAudit = - 1"
    by (simp add: new_ProviderAudit_def)
  from c1 c2 c3 c4 c5 show ?thesis by (intro conjI)
qed

theorem FinalizeMetrics_average_witness:
  "avg_latency_ms (FinalizeMetrics
     (new_ProviderAudit\<lparr>request_traces := map trace_of_latency [10, - 1, 25]\<rparr>)) = 17"
proof -
  let ?p = "new_ProviderAudit\<lparr>request_traces := map trace_of_latency [10, - 1, 25]\<rparr>"
  have a: "avg_latency_ms ?p = - 1"
    by (simp add: new_ProviderAudit_def)
  have b: "filter (\<lambda>l. 0 \<le> l) (map rt_latency_ms (request_traces ?p)) = [10, 25]"
    by (simp add: trace_of_latency_def)
  from FinalizeMetrics_average [of ?p] a show ?thesis
    unfolding b Let_def by simp
qed


section \<open>Request accounting\<close>

lemma counted_sum: "counted p \<Longrightarrow> total_requests p = successful_requests p + failed_requests p"
  using sum_length_filter_compl [of trace_ok "request_traces p"]
  by (simp add: counted_def)

lemma counted_new [simp]: "counted new_ProviderAudit"
  by (simp add: counted_def new_ProviderAudit_def)

lemma accounted_tally:
  "tally q = tally p \<Longrightarrow> accounted base q s = accounted base p s"
  by (simp add: accounted_def counted_def tally_def)

lemma AddTrace_traces:
  "request_traces (AddTrace p step method url r) = request_traces p @ [trace_of step method url r]"
  by (simp add: AddTrace_def trace_of_def Let_def)

lemma AddTrace_total: "total_requests (AddTrace p step method url r) = total_requests p + 1"
  by (simp add: AddTrace_def Let_def)

lemma AddTrace_successful:
  "successful_requests (AddTrace p step method url r) =
     successful_requests p + (if resp_ok r then 1 else 0)"
  by (simp add: AddTrace_def Let_def resp_ok_def)

lemma AddTrace_failed:
  "failed_requests (AddTrace p step method url r) = failed_requests p + (if resp_ok r then 0 else 1)"
  by (simp add: AddTrace_def Let_def resp_ok_def)

lemma trace_ok_trace_of [simp]: "trace_ok (trace_of step method url r) = resp_ok r"
  by (simp add: trace_ok_def trace_of_def resp_ok_def)

lemma request_of_trace_of [simp]: "request_of (trace_of step method url r) = (method, url)"
  by (simp add: request_of_def trace_of_def)

lemma counted_AddTrace: "counted p \<Longrightarrow> counted (AddTrace p step method url r)"
  by (simp add: counted_def AddTrace_traces AddTrace_total AddTrace_successful AddTrace_failed)

lemma accounted_Request_AddTrace:
  "accounted base p s \<Longrightarrow> Request e method url s = (r, s') \<Longrightarrow>
   accounted base (AddTrace p step method url r) s'"
  by (auto simp: accounted_def counted_AddTrace AddTrace_traces Request_def)

lemma tally_FinalizeMetrics [simp]: "tally (FinalizeMetrics p) = tally p"
  by (simp add: tally_def FinalizeMetrics_def Let_def)

lemma tally_ScoreProvider [simp]: "tally (ScoreProvider p) = tally p"
  by (simp add: tally_def ScoreProvider_def Let_def)

lemma tally_canceled_note [simp]: "tally (canceled_note p) = tally p"
  using tally_FinalizeMetrics [of "p\<lparr>notes := notes p @ '' Audit canceled by user.''\<rparr>"]
  by (simp add: canceled_note_def) (simp add: tally_def)

lemma tally_choose_model_used [simp]: "tally (choose_model_used pool preferred p) = tally p"
  by (simp add: tally_def choose_model_used_def)

lemma tally_record_discovery [simp]: "tally (record_discovery p discovered j) = tally p"
  by (simp add: tally_def record_discovery_def)

lemma tally_updates [simp]:
  "tally (p\<lparr>notes := n\<rparr>) = tally p"
  "tally (p\<lparr>raw_payload := rp\<rparr>) = tally p"
  "tally (p\<lparr>model_checks := mcs\<rparr>) = tally p"
  "tally (p\<lparr>working_models := ws\<rparr>) = tally p"
  "tally (p\<lparr>failing_models := fs\<rparr>) = tally p"
  "tally (p\<lparr>prompt_tests := ts\<rparr>) = tally p"
  by (simp_all add: tally_def)

lemma accounted_load_cancel:
  "load_cancel e s = (c, s') \<Longrightarrow> accounted base p s' = accounted base p s"
  by (auto simp: load_cancel_def accounted_def)

lemma accounted_log: "log_only log \<Longrightarrow> accounted base p (log m s) = accounted base p s"
  by (simp add: log_only_def accounted_def)

lemma log_only_push_log [simp]: "log_only (push_log e)"
  by (simp add: log_only_def push_log_def NowUtc_def Let_def)

lemma ModelChecks_accounted:
  "accounted base p s \<Longrightarrow> ModelChecks e extract url_of cands p s = (r, s') \<Longrightarrow>
   accounted base (done_audit r) s'"
proof (induction cands arbitrary: p s)
  case Nil
  then show ?case by (auto simp: done_audit_def)
next
  case (Cons model rest)
  obtain c s1 where lc: "load_cancel e s = (c, s1)" by (cases "load_cancel e s")
  have a1: "accounted base p s1"
    using Cons.prems(1) accounted_load_cancel [OF lc] by simp
  show ?case
  proof (cases c)
    case True
    with Cons.prems(2) lc a1 show ?thesis
      by (auto simp: done_audit_def accounted_tally [of "canceled_note p" p])
  next
    case False
    obtain resp s2 where rq: "Request e ''POST'' (url_of model) s1 = (resp, s2)"
      by (cases "Request e ''POST'' (url_of model) s1")
    let ?p1 = "AddTrace p (''model_check:'' @ model) ''POST'' (url_of model) resp"
    have a2: "accounted base ?p1 s2"
      using a1 rq by (rule accounted_Request_AddTrace)
    from Cons.prems(2) lc False rq obtain p2 where
      run: "ModelChecks e extract url_of rest p2 s2 = (r, s')" and t: "tally p2 = tally ?p1"
      by (auto simp: Let_def split: if_splits)
    from a2 t have "accounted base p2 s2"
      by (simp add: accounted_tally [of p2 ?p1])
    from Cons.IH [OF this run] show ?thesis .
  qed
qed

lemma PromptSuite_accounted:
  "log_only log \<Longrightarrow> accounted base p s \<Longrightarrow>
   PromptSuite e extract url tag log prompts p s = (r, s') \<Longrightarrow>
   accounted base (done_audit r) s'"
proof (induction prompts arbitrary: p s)
  case Nil
  then show ?case by (auto simp: done_audit_def)
next
  case (Cons prompt rest)
  obtain c s1 where lc: "load_cancel e s = (c, s1)" by (cases "load_cancel e s")
  have a1: "accounted base p s1"
    using Cons.prems(2) accounted_load_cancel [OF lc] by simp
  show ?case
  proof (cases c)
    case True
    with Cons.prems(3) lc a1 show ?thesis
      by (auto simp: done_audit_def accounted_tally [of "canceled_note p" p])
  next
    case False
    let ?s2 = "log (''['' @ tag @ ''] Prompt test: '' @ prompt) s1"
    obtain resp s3 where rq: "Request e ''POST'' url ?s2 = (resp, s3)"
      by (cases "Request e ''POST'' url ?s2")
    let ?p1 = "AddTrace p (''prompt_test:'' @ prompt) ''POST'' url resp"
    have "accounted base p ?s2"
      using a1 Cons.prems(1) by (simp add: accounted_log)
    then have a2: "accounted base ?p1 s3"
      using rq by (rule accounted_Request_AddTrace)
    from Cons.prems(3) lc False rq obtain p2 where
      run: "PromptSuite e extract url tag log rest p2 s3 = (r, s')" and t: "tally p2 = tally ?p1"
      by (auto simp: Let_def)
    from a2 t have "accounted base p2 s3"
      by (simp add: accounted_tally [of p2 ?p1])
    from Cons.IH [OF Cons.prems(1) this run] show ?thesis .
  qed
qed

lemma checks_and_prompts_accounted:
  assumes "log_only log" and "accounted base p s"
    and "checks_and_prompts e extract url_of tag log pool preferred p s = (q, s')"
  shows "accounted base q s'"
proof -
  obtain r1 s1 where mc: "ModelChecks e extract url_of (TopCandidates pool preferred 8) p s = (r1, s1)"
    by (cases "ModelChecks e extract url_of (TopCandidates pool preferred 8) p s")
  from ModelChecks_accounted [OF assms(2) mc] have a1: "accounted base (done_audit r1) s1" .
  show ?thesis
  proof (cases r1)
    case (Inl p1)
    with assms(3) mc a1 show ?thesis
      by (simp add: checks_and_prompts_def done_audit_def)
  next
    case (Inr p1)
    let ?p2 = "choose_model_used pool preferred p1"
    obtain r2 s2 where ps:
      "PromptSuite e extract (url_of (model_used ?p2)) tag log kPromptSuite ?p2 s1 = (r2, s2)"
      by (cases "PromptSuite e extract (url_of (model_used ?p2)) tag log kPromptSuite ?p2 s1")
    from a1 Inr have "accounted base ?p2 s1"
      by (simp add: done_audit_def accounted_tally [of ?p2 p1])
    from PromptSuite_accounted [OF assms(1) this ps] have a2: "accounted base (done_audit r2) s2" .
    show ?thesis
    proof (cases r2)
      case (Inl p3)
      with assms(3) mc Inr ps a2 show ?thesis
        by (simp add: checks_and_prompts_def done_audit_def Let_def)
    next
      case r2: (Inr p3)
      with assms(3) mc Inr ps a2 show ?thesis
        by (auto simp: checks_and_prompts_def done_audit_def Let_def
              accounted_tally [of "FinalizeMetrics (ScoreProvider p3)" p3])
    qed
  qed
qed

lemma tally_record_list_response:
  "tally (record_list_response p url r) = tally (AddTrace p ''list_models'' ''GET'' url r)"
  by (simp add: record_list_response_def Let_def tally_def)

lemma tally_record_auth_response:
  "tally (record_auth_response p url r) = tally (AddTrace p ''auth_user'' ''GET'' url r)"
  by (simp add: record_auth_response_def Let_def tally_def)

lemma accounted_list_response:
  "accounted base p s \<Longrightarrow> Request e ''GET'' url s = (r, s') \<Longrightarrow>
   accounted base (record_list_response p url r) s'"
  using accounted_Request_AddTrace [of base p s e "''GET''" url r s' "''list_models''"]
  by (simp add: accounted_tally [OF tally_record_list_response])

lemma accounted_auth_response:
  "accounted base p s \<Longrightarrow> Request e ''GET'' url s = (r, s') \<Longrightarrow>
   accounted base (record_auth_response p url r) s'"
  using accounted_Request_AddTrace [of base p s e "''GET''" url r s' "''auth_user''"]
  by (simp add: accounted_tally [OF tally_record_auth_response])

lemma accounted_start: "accounted (sent s) (start_audit pid pname key) s"
  by (simp add: accounted_def counted_def start_audit_def new_ProviderAudit_def)

lemma accounted_no_key:
  "accounted (sent s) (start_audit pid pname key\<lparr>notes := n\<rparr>) s"
  using accounted_start [of s pid pname key]
  by (simp add: accounted_tally [of "start_audit pid pname key\<lparr>notes := n\<rparr>"])

lemma accounted_no_models:
  "accounted base p s \<Longrightarrow> accounted base (FinalizeMetrics (p\<lparr>notes := n\<rparr>)) s"
  by (simp add: accounted_tally [of "FinalizeMetrics (p\<lparr>notes := n\<rparr>)" p])

lemma accounted_raw_payload:
  "accounted base (p\<lparr>raw_payload := rp\<rparr>) s = accounted base p s"
  by (simp add: accounted_tally [of "p\<lparr>raw_payload := rp\<rparr>" p])

lemma accounted_record_discovery:
  "accounted base (record_discovery p d j) s = accounted base p s"
  by (simp add: accounted_tally [of "record_discovery p d j" p])

lemma AuditOpenAICompatible_accounted:
  assumes "log_only log"
    and "AuditOpenAICompatible e pid pname key list_url chat_url preferred log s = (q, s')"
  shows "accounted (sent s) q s'"
proof (cases "key = []")
  case True
  with assms(2) show ?thesis
    by (auto simp: AuditOpenAICompatible_def Let_def accounted_no_key)
next
  case False
  let ?s1 = "log (''['' @ pname @ ''] Fetching model list'') s"
  obtain r s2 where rq: "Request e ''GET'' list_url ?s1 = (r, s2)"
    by (cases "Request e ''GET'' list_url ?s1")
  have "accounted (sent s) (start_audit pid pname key) ?s1"
    using assms(1) by (simp add: accounted_log accounted_start)
  from accounted_list_response [OF this rq]
  have a: "accounted (sent s) (record_list_response (start_audit pid pname key) list_url r) s2" .
  let ?j = "ParseJson (parse e) (resp_body r)"
  let ?d = "ExtractModelIds ?j"
  let ?p = "record_discovery
              (record_list_response (start_audit pid pname key) list_url r
                 \<lparr>raw_payload := AList.update ''models_response'' ?j
                    (raw_payload (record_list_response (start_audit pid pname key) list_url r))\<rparr>)
              ?d ?j"
  from a have b: "accounted (sent s) ?p s2"
    by (simp only: accounted_record_discovery accounted_raw_payload)
  show ?thesis
  proof (cases "?d = []")
    case True
    with assms(2) False rq have "q = FinalizeMetrics (?p\<lparr>notes := ''No models discovered or access denied.''\<rparr>)"
      and "s' = s2"
      by (simp_all add: AuditOpenAICompatible_def Let_def)
    with b show ?thesis
      by (simp only: accounted_no_models)
  next
    case d: False
    with assms(2) False rq
    have "checks_and_prompts e ExtractOpenAIText (\<lambda>model. chat_url) pname log ?d preferred ?p s2 = (q, s')"
      by (simp add: AuditOpenAICompatible_def Let_def)
    from checks_and_prompts_accounted [OF assms(1) b this] show ?thesis .
  qed
qed

lemma AuditGoogle_accounted:
  assumes "log_only log" and "AuditGoogle e key log s = (q, s')"
  shows "accounted (sent s) q s'"
proof (cases "key = []")
  case True
  with assms(2) show ?thesis
    by (auto simp: AuditGoogle_def Let_def accounted_no_key)
next
  case False
  let ?url = "''https://generativelanguage.googleapis.com/v1beta/models?key='' @ key"
  let ?s1 = "log ''[Google AI Studio] Fetching model list'' s"
  let ?p0 = "start_audit ''google_ai_studio'' ''Google AI Studio'' key"
  obtain r s2 where rq: "Request e ''GET'' ?url ?s1 = (r, s2)"
    by (cases "Request e ''GET'' ?url ?s1")
  have "accounted (sent s) ?p0 ?s1"
    using assms(1) by (simp add: accounted_log accounted_start)
  from accounted_list_response [OF this rq]
  have a: "accounted (sent s) (record_list_response ?p0 ?url r) s2" .
  let ?j = "ParseJson (parse e) (resp_body r)"
  let ?d = "sorted_list_of_set (set (fold google_item (models_array ?j) []))"
  let ?p = "record_discovery
              (record_list_response ?p0 ?url r
                 \<lparr>raw_payload := AList.update ''models_response'' ?j
                    (raw_payload (record_list_response ?p0 ?url r))\<rparr>)
              ?d ?j"
  from a have b: "accounted (sent s) ?p s2"
    by (simp only: accounted_record_discovery accounted_raw_payload)
  show ?thesis
  proof (cases "?d = []")
    case True
    with assms(2) False rq have "q = FinalizeMetrics (?p\<lparr>notes := ''No generateContent models discovered.''\<rparr>)"
      and "s' = s2"
      by (simp_all add: AuditGoogle_def Let_def)
    with b show ?thesis
      by (simp only: accounted_no_models)
  next
    case d: False
    with assms(2) False rq
    have "checks_and_prompts e ExtractGoogleText (google_url key) ''Google AI Studio'' log ?d
            google_preferred ?p s2 = (q, s')"
      by (simp add: AuditGoogle_def Let_def)
    from checks_and_prompts_accounted [OF assms(1) b this] show ?thesis .
  qed
qed

lemma AuditCohere_accounted:
  assumes "log_only log" and "AuditCohere e key log s = (q, s')"
  shows "accounted (sent s) q s'"
proof (cases "key = []")
  case True
  with assms(2) show ?thesis
    by (auto simp: AuditCohere_def Let_def accounted_no_key)
next
  case False
  let ?url = "''https://api.cohere.com/v1/models''"
  let ?s1 = "log ''[Cohere] Fetching model list'' s"
  let ?p0 = "start_audit ''cohere'' ''Cohere'' key"
  obtain r s2 where rq: "Request e ''GET'' ?url ?s1 = (r, s2)"
    by (cases "Request e ''GET'' ?url ?s1")
  have "accounted (sent s) ?p0 ?s1"
    using assms(1) by (simp add: accounted_log accounted_start)
  from accounted_list_response [OF this rq]
  have a: "accounted (sent s) (record_list_response ?p0 ?url r) s2" .
  let ?j = "ParseJson (parse e) (resp_body r)"
  let ?d = "sorted_list_of_set (set (fold cohere_item (models_array ?j) []))"
  let ?c = "filter (\<lambda>m. \<not> (found (ToLower m) ''embed'' \<or> found (ToLower m) ''rerank'')) ?d"
  let ?p = "record_discovery
              (record_list_response ?p0 ?url r
                 \<lparr>raw_payload := AList.update ''models_response'' ?j
                    (raw_payload (record_list_response ?p0 ?url r))\<rparr>)
              ?d ?j"
  from a have b: "accounted (sent s) ?p s2"
    by (simp only: accounted_record_discovery accounted_raw_payload)
  show ?thesis
  proof (cases "?c = []")
    case True
    with assms(2) False rq
    have "q = FinalizeMetrics (?p\<lparr>notes := ''No chat-capable models inferred from model names.''\<rparr>)"
      and "s' = s2"
      by (simp_all add: AuditCohere_def Let_def)
    with b show ?thesis
      by (simp only: accounted_no_models)
  next
    case d: False
    with assms(2) False rq
    have "checks_and_prompts e ExtractCohereText (\<lambda>model. ''https://api.cohere.com/v1/chat'')
            ''Cohere'' log ?c cohere_preferred ?p s2 = (q, s')"
      by (simp add: AuditCohere_def Let_def)
    from checks_and_prompts_accounted [OF assms(1) b this] show ?thesis .
  qed
qed

lemma AuditVercel_accounted:
  assumes "log_only log" and "AuditVercel e key log s = (q, s')"
  shows "accounted (sent s) q s'"
proof (cases "key = []")
  case True
  with assms(2) show ?thesis
    by (auto simp: AuditVercel_def Let_def accounted_no_key)
next
  case False
  let ?aurl = "''https://api.vercel.com/v2/user''"
  let ?url = "''https://ai-gateway.vercel.sh/v1/models''"
  let ?p0 = "start_audit ''vercel'' ''Vercel AI Gateway'' key"
  let ?s1 = "log ''[Vercel] Validating user token'' s"
  obtain ar s2 where arq: "Request e ''GET'' ?aurl ?s1 = (ar, s2)"
    by (cases "Request e ''GET'' ?aurl ?s1")
  let ?s3 = "log ''[Vercel] Fetching AI Gateway models'' s2"
  obtain r s4 where rq: "Request e ''GET'' ?url ?s3 = (r, s4)"
    by (cases "Request e ''GET'' ?url ?s3")
  have "accounted (sent s) ?p0 ?s1"
    using assms(1) by (simp add: accounted_log accounted_start)
  from accounted_auth_response [OF this arq]
  have "accounted (sent s) (record_auth_response ?p0 ?aurl ar) s2" .
  then have "accounted (sent s) (record_auth_response ?p0 ?aurl ar) ?s3"
    using assms(1) by (simp add: accounted_log)
  from accounted_list_response [OF this rq]
  have a: "accounted (sent s) (record_list_response (record_auth_response ?p0 ?aurl ar) ?url r) s4" .
  let ?p1 = "record_list_response (record_auth_response ?p0 ?aurl ar) ?url r"
  let ?j = "ParseJson (parse e) (resp_body r)"
  let ?d = "ExtractModelIds ?j"
  let ?p2 = "?p1\<lparr>raw_payload :=
                   AList.update ''auth_response'' (ParseJson (parse e) (resp_body ar)) (raw_payload ?p1)\<rparr>"
  let ?p = "record_discovery
              (?p2\<lparr>raw_payload := AList.update ''models_response'' ?j (raw_payload ?p2)\<rparr>) ?d ?j"
  from a have b: "accounted (sent s) ?p s4"
    by (simp only: accounted_record_discovery accounted_raw_payload)
  show ?thesis
  proof (cases "?d = []")
    case True
    with assms(2) False arq rq
    have "q = FinalizeMetrics (?p\<lparr>notes := ''No models discovered from AI Gateway.''\<rparr>)"
      and "s' = s4"
      by (simp_all add: AuditVercel_def Let_def)
    with b show ?thesis
      by (simp only: accounted_no_models)
  next
    case d: False
    with assms(2) False arq rq
    have "checks_and_prompts e ExtractOpenAIText
            (\<lambda>model. ''https://ai-gateway.vercel.sh/v1/chat/completions'')
            ''Vercel'' log ?d vercel_preferred ?p s4 = (q, s')"
      by (simp add: AuditVercel_def Let_def)
    from checks_and_prompts_accounted [OF assms(1) b this] show ?thesis .
  qed
qed

lemma AuditGitHubToken_accounted:
  assumes "log_only log" and "AuditGitHubToken e pid pname token log s = (q, s')"
  shows "accounted (sent s) q s'"
proof (cases "token = []")
  case True
  with assms(2) show ?thesis
    by (auto simp: AuditGitHubToken_def Let_def accounted_no_key)
next
  case False
  let ?aurl = "''https://api.github.com/user''"
  let ?url = "''https://models.inference.ai.azure.com/models''"
  let ?p0 = "start_audit pid pname token"
  let ?s1 = "log (''['' @ pname @ ''] Validating GitHub user scope'') s"
  obtain ar s2 where arq: "Request e ''GET'' ?aurl ?s1 = (ar, s2)"
    by (cases "Request e ''GET'' ?aurl ?s1")
  let ?s3 = "log (''['' @ pname @ ''] Fetching GitHub Models catalog'') s2"
  obtain r s4 where rq: "Request e ''GET'' ?url ?s3 = (r, s4)"
    by (cases "Request e ''GET'' ?url ?s3")
  have "accounted (sent s) ?p0 ?s1"
    using assms(1) by (simp add: accounted_log accounted_start)
  from accounted_auth_response [OF this arq]
  have "accounted (sent s) (record_auth_response ?p0 ?aurl ar) s2" .
  then have "accounted (sent s) (record_auth_response ?p0 ?aurl ar) ?s3"
    using assms(1) by (simp add: accounted_log)
  from accounted_list_response [OF this rq]
  have a: "accounted (sent s) (record_list_response (record_auth_response ?p0 ?aurl ar) ?url r) s4" .
  let ?p1 = "record_list_response (record_auth_response ?p0 ?aurl ar) ?url r"
  let ?j = "ParseJson (parse e) (resp_body r)"
  let ?d = "ExtractModelIds ?j"
  let ?p2 = "?p1\<lparr>raw_payload :=
                   AList.update ''user_response'' (ParseJson (parse e) (resp_body ar)) (raw_payload ?p1)\<rparr>"
  let ?p = "record_discovery
              (?p2\<lparr>raw_payload := AList.update ''models_response'' ?j (raw_payload ?p2)\<rparr>) ?d ?j"
  from a have b: "accounted (sent s) ?p s4"
    by (simp only: accounted_record_discovery accounted_raw_payload)
  show ?thesis
  proof (cases "?d = []")
    case True
    with assms(2) False arq rq
    have "q = FinalizeMetrics (?p\<lparr>notes := ''No models discovered for this token.''\<rparr>)"
      and "s' = s4"
      by (simp_all add: AuditGitHubToken_def Let_def)
    with b show ?thesis
      by (simp only: accounted_no_models)
  next
    case d: False
    with assms(2) False arq rq
    have "checks_and_prompts e ExtractOpenAIText
            (\<lambda>model. ''https://models.inference.ai.azure.com/chat/completions'')
            pname log ?d github_preferred ?p s4 = (q, s')"
      by (simp add: AuditGitHubToken_def Let_def)
    from checks_and_prompts_accounted [OF assms(1) b this] show ?thesis .
  qed
qed



lemma Run_phases:
  "Run e keys s =
     (case start_run e s of
        (generated, canceled, s1) \<Rightarrow>
          if canceled
          then (\<lparr>generated_at_utc = generated,
                  run_logs = report_logs (push_log e ''Audit canceled before start.'' s1),
                  providers = []\<rparr>,
                push_log e ''Audit canceled before start.'' s1)
          else (case all_launched e keys s1 of
                  (ps, s2) \<Rightarrow>
                    (\<lparr>generated_at_utc = generated, run_logs = report_logs (end_run e s2),
                      providers = ps\<rparr>, end_run e s2)))"
  by (simp add: Run_def start_run_def all_launched_def end_run_def later_launches_def Let_def
        split: prod.splits)

subsection \<open>The orchestrator keeps the accounts\<close>

lemma launch_ok_openai: "launch_ok (AuditOpenAICompatible e pid pname key lu cu prefs (push_log e))"
  unfolding launch_ok_def
  by (metis AuditOpenAICompatible_accounted log_only_push_log prod.collapse)

lemma launch_ok_google: "launch_ok (AuditGoogle e key (push_log e))"
  unfolding launch_ok_def
  by (metis AuditGoogle_accounted log_only_push_log prod.collapse)

lemma launch_ok_cohere: "launch_ok (AuditCohere e key (push_log e))"
  unfolding launch_ok_def
  by (metis AuditCohere_accounted log_only_push_log prod.collapse)

lemma launch_ok_vercel: "launch_ok (AuditVercel e key (push_log e))"
  unfolding launch_ok_def
  by (metis AuditVercel_accounted log_only_push_log prod.collapse)

lemma launch_ok_github: "launch_ok (AuditGitHubToken e pid pname token (push_log e))"
  unfolding launch_ok_def
  by (metis AuditGitHubToken_accounted log_only_push_log prod.collapse)

lemma launch_ok_later: "list_all launch_ok (later_launches e keys)"
  by (simp add: later_launches_def launch_mistral_def launch_groq_def launch_ai21_def
        launch_ok_openai launch_ok_google launch_ok_cohere launch_ok_vercel launch_ok_github)

lemma unless_canceled_reported:
  assumes "launch_ok l" and "reported base (fst st) (snd st)"
  shows "reported base (fst (unless_canceled e l st)) (snd (unless_canceled e l st))"
proof (cases "cancel_requested e (loads (snd st))")
  case True
  with assms(2) show ?thesis
    by (simp add: unless_canceled_def load_cancel_def reported_def)
next
  case False
  let ?s1 = "snd st\<lparr>loads := Suc (loads (snd st))\<rparr>"
  from assms(1) have "accounted (sent ?s1) (fst (l ?s1)) (snd (l ?s1))"
    unfolding launch_ok_def by (rule spec)
  then have "counted (fst (l ?s1))"
    and "sent (snd (l ?s1)) = sent (snd st) @ map request_of (request_traces (fst (l ?s1)))"
    by (simp_all add: accounted_def)
  with assms(2) False show ?thesis
    by (simp add: unless_canceled_def load_cancel_def reported_def case_prod_beta)
qed

lemma fold_unless_canceled_reported:
  "list_all launch_ok ls \<Longrightarrow> reported base (fst st) (snd st) \<Longrightarrow>
   reported base (fst (fold (unless_canceled e) ls st)) (snd (fold (unless_canceled e) ls st))"
  by (induction ls arbitrary: st) (simp_all add: unless_canceled_reported)

lemma sent_push_log [simp]: "sent (push_log e m s) = sent s"
  by (simp add: push_log_def NowUtc_def Let_def)

lemma all_launched_reported:
  "reported (sent s) (fst (all_launched e keys s)) (snd (all_launched e keys s))"
proof -
  let ?s1 = "push_log e ''Starting full provider audit'' s"
  obtain p s2 where l: "launch_openrouter e keys ?s1 = (p, s2)"
    by (cases "launch_openrouter e keys ?s1")
  then have "accounted (sent ?s1) p s2"
    unfolding launch_openrouter_def by (rule AuditOpenAICompatible_accounted [OF log_only_push_log])
  then have "reported (sent s) (fst ([p], s2)) (snd ([p], s2))"
    by (simp add: reported_def accounted_def)
  from fold_unless_canceled_reported [OF launch_ok_later this] l show ?thesis
    by (simp add: all_launched_def)
qed

lemma sent_start_run: "start_run e s = (g, c, s1) \<Longrightarrow> sent s1 = sent s"
  by (auto simp: start_run_def NowUtc_def load_cancel_def)

lemma sent_end_run [simp]: "sent (end_run e s) = sent s"
  by (simp add: end_run_def load_cancel_def)

lemma Run_reported:
  "reported (sent s) (providers (fst (Run e keys s))) (snd (Run e keys s))"
proof -
  obtain g c s1 where st: "start_run e s = (g, c, s1)"
    by (cases "start_run e s") auto
  from sent_start_run [OF st] have s1: "sent s1 = sent s" .
  show ?thesis
  proof (cases c)
    case True
    with st s1 show ?thesis
      by (simp add: Run_phases reported_def)
  next
    case False
    from all_launched_reported [of s1 e keys] s1
    have "reported (sent s) (fst (all_launched e keys s1)) (snd (all_launched e keys s1))"
      by simp
    with st False show ?thesis
      by (auto simp: Run_phases reported_def split: prod.splits)
  qed
qed



section \<open>The model-check phase\<close>

lemma mc_model_checks_of [simp]: "map mc_model (checks_of e extract k ms) = ms"
  by (induction ms arbitrary: k) (simp_all add: model_check_of_def)

lemma length_checks_of [simp]: "length (checks_of e extract k ms) = length ms"
  by (induction ms arbitrary: k) simp_all

lemma verdicts_simps [simp]:
  "verdicts (AddTrace p step method url r) = verdicts p"
  "verdicts (FinalizeMetrics p) = verdicts p"
  "verdicts (ScoreProvider p) = verdicts p"
  "verdicts (p\<lparr>notes := n\<rparr>) = verdicts p"
  "verdicts (p\<lparr>prompt_tests := ts\<rparr>) = verdicts p"
  "verdicts (p\<lparr>raw_payload := rp\<rparr>) = verdicts p"
  "verdicts (record_discovery p d j) = verdicts p"
  "verdicts (record_list_response p url r) = verdicts p"
  "verdicts (record_auth_response p url r) = verdicts p"
  by (simp_all add: verdicts_def AddTrace_def FinalizeMetrics_def ScoreProvider_def Let_def
        record_discovery_def record_list_response_def record_auth_response_def)

lemma verdicts_canceled_note [simp]: "verdicts (canceled_note p) = verdicts p"
  by (simp add: canceled_note_def)

lemma verdicts_start_audit: "verdicts (start_audit pid pname key) = ([], [], [], [])"
  by (simp add: verdicts_def start_audit_def new_ProviderAudit_def)

lemma AddTrace_verdict_fields [simp]:
  "model_checks (AddTrace p step method url r) = model_checks p"
  "working_models (AddTrace p step method url r) = working_models p"
  "failing_models (AddTrace p step method url r) = failing_models p"
  "model_used (AddTrace p step method url r) = model_used p"
  by (simp_all add: AddTrace_def Let_def)

lemma checked_le: "checked e k cands \<le> length cands"
  by (induction cands arbitrary: k) simp_all

lemma ModelChecks_verdicts:
  assumes "ModelChecks e extract url_of cands p s = (r, s')"
  defines "made \<equiv> checks_of e extract (length (sent s)) (take (checked e (loads s) cands) cands)"
  shows "model_checks (done_audit r) = model_checks p @ made"
    and "working_models (done_audit r) = working_models p @ map mc_model (filter mc_working made)"
    and "failing_models (done_audit r) =
           failing_models p @ map mc_model (filter (\<lambda>c. \<not> mc_working c) made)"
    and "model_used (done_audit r) = model_used p"
    and "(\<exists>q. r = Inr q) \<longleftrightarrow> checked e (loads s) cands = length cands"
proof -
  have "model_checks (done_audit r) =
          model_checks p @ checks_of e extract (length (sent s)) (take (checked e (loads s) cands) cands) \<and>
        working_models (done_audit r) =
          working_models p @ map mc_model (filter mc_working
            (checks_of e extract (length (sent s)) (take (checked e (loads s) cands) cands))) \<and>
        failing_models (done_audit r) =
          failing_models p @ map mc_model (filter (\<lambda>c. \<not> mc_working c)
            (checks_of e extract (length (sent s)) (take (checked e (loads s) cands) cands))) \<and>
        model_used (done_audit r) = model_used p \<and>
        ((\<exists>q. r = Inr q) \<longleftrightarrow> checked e (loads s) cands = length cands)"
    using assms(1)
  proof (induction cands arbitrary: p s)
    case Nil
    then show ?case by (auto simp: done_audit_def)
  next
    case (Cons model rest)
    show ?case
    proof (cases "cancel_requested e (loads s)")
      case True
      with Cons.prems have "r = Inl (canceled_note p)"
        by (auto simp: load_cancel_def)
      moreover have "verdicts (canceled_note p) = verdicts p" by simp
      ultimately show ?thesis
        using True by (simp add: done_audit_def verdicts_def)
    next
      case False
      let ?s1 = "s\<lparr>loads := Suc (loads s)\<rparr>"
      let ?resp = "sender e (length (sent s))"
      let ?s2 = "?s1\<lparr>sent := sent s @ [(''POST'', url_of model)]\<rparr>"
      let ?mc = "model_check_of e extract model ?resp"
      let ?p1 = "AddTrace p (''model_check:'' @ model) ''POST'' (url_of model) ?resp
                   \<lparr>model_checks := model_checks p @ [?mc]\<rparr>"
      let ?p2 = "if mc_working ?mc then ?p1\<lparr>working_models := working_models p @ [model]\<rparr>
                 else ?p1\<lparr>failing_models := failing_models p @ [model]\<rparr>"
      from Cons.prems False have run: "ModelChecks e extract url_of rest ?p2 ?s2 = (r, s')"
        by (simp add: load_cancel_def Request_def Let_def model_check_of_def cong: if_cong)
      have m: "mc_model ?mc = model"
        by (simp add: model_check_of_def)
      from Cons.IH [OF run] False m show ?thesis
        by simp
    qed
  qed
  then show "model_checks (done_audit r) = model_checks p @ made"
    and "working_models (done_audit r) = working_models p @ map mc_model (filter mc_working made)"
    and "failing_models (done_audit r) =
           failing_models p @ map mc_model (filter (\<lambda>c. \<not> mc_working c) made)"
    and "model_used (done_audit r) = model_used p"
    and "(\<exists>q. r = Inr q) \<longleftrightarrow> checked e (loads s) cands = length cands"
    by (simp_all add: made_def)
qed

lemma PromptSuite_verdicts:
  "PromptSuite e extract url tag log prompts p s = (r, s') \<Longrightarrow>
   verdicts (done_audit r) = verdicts p"
proof (induction prompts arbitrary: p s)
  case Nil
  then show ?case by (auto simp: done_audit_def)
next
  case (Cons prompt rest)
  show ?case
  proof (cases "cancel_requested e (loads s)")
    case True
    with Cons.prems have "r = Inl (canceled_note p)"
      by (auto simp: load_cancel_def)
    then show ?thesis by (simp add: done_audit_def)
  next
    case False
    with Cons.prems obtain p2 s2 where
      run: "PromptSuite e extract url tag log rest p2 s2 = (r, s')" and v: "verdicts p2 = verdicts p"
      by (auto simp: load_cancel_def Request_def Let_def)
    from Cons.IH [OF run] v show ?thesis by simp
  qed
qed

lemma preferred_hits_subset: "set (preferred_hits pool prefs) \<subseteq> set pool"
  by (auto simp: preferred_hits_def)

lemma ChooseModel_in_pool: "pool \<noteq> [] \<Longrightarrow> ChooseModel pool prefs \<in> set pool"
proof -
  assume "pool \<noteq> []"
  then obtain front rest where pool: "pool = front # rest" by (cases pool) auto
  show ?thesis
  proof (cases "preferred_hits pool prefs")
    case Nil
    with pool show ?thesis
      unfolding ChooseModel_def choose_prefs_hits by simp
  next
    case (Cons d ds)
    then have "d \<in> set pool"
      using preferred_hits_subset [of pool prefs] by auto
    with pool Cons show ?thesis
      unfolding ChooseModel_def choose_prefs_hits by simp
  qed
qed

lemma set_TopCandidates: "0 < n \<Longrightarrow> set (TopCandidates pool prefs n) \<subseteq> set pool"
  using preferred_hits_subset [of pool prefs] set_take_subset [of n "first_seen (preferred_hits pool prefs @ pool)"]
  by (auto simp: TopCandidates_take)

lemma checks_and_prompts_verdicts:
  assumes "checks_and_prompts e extract url_of tag log pool preferred p s = (q, s')"
  defines "cands \<equiv> TopCandidates pool preferred 8"
  defines "made \<equiv> checks_of e extract (length (sent s)) (take (checked e (loads s) cands) cands)"
  shows "model_checks q = model_checks p @ made"
    and "working_models q = working_models p @ map mc_model (filter mc_working made)"
    and "failing_models q = failing_models p @ map mc_model (filter (\<lambda>c. \<not> mc_working c) made)"
    and "model_used q =
           (if checked e (loads s) cands = length cands
            then (case working_models q of w # _ \<Rightarrow> w | [] \<Rightarrow> ChooseModel pool preferred)
            else model_used p)"
proof -
  obtain r1 s1 where mc: "ModelChecks e extract url_of cands p s = (r1, s1)"
    by (cases "ModelChecks e extract url_of cands p s")
  note v = ModelChecks_verdicts [OF mc, folded made_def]
  have "model_checks q = model_checks p @ made \<and>
        working_models q = working_models p @ map mc_model (filter mc_working made) \<and>
        failing_models q = failing_models p @ map mc_model (filter (\<lambda>c. \<not> mc_working c) made) \<and>
        model_used q =
           (if checked e (loads s) cands = length cands
            then (case working_models q of w # _ \<Rightarrow> w | [] \<Rightarrow> ChooseModel pool preferred)
            else model_used p)"
  proof (cases r1)
    case (Inl p1)
    with assms(1) mc have "q = p1"
      by (simp add: checks_and_prompts_def cands_def)
    moreover from Inl v(5) have "checked e (loads s) cands \<noteq> length cands" by auto
    ultimately show ?thesis
      using v(1-4) Inl by (simp add: done_audit_def)
  next
    case (Inr p1)
    let ?p2 = "choose_model_used pool preferred p1"
    obtain r2 s2 where ps:
      "PromptSuite e extract (url_of (model_used ?p2)) tag log kPromptSuite ?p2 s1 = (r2, s2)"
      by (cases "PromptSuite e extract (url_of (model_used ?p2)) tag log kPromptSuite ?p2 s1")
    from PromptSuite_verdicts [OF ps] have v2: "verdicts (done_audit r2) = verdicts ?p2" .
    have "verdicts q = verdicts ?p2"
    proof (cases r2)
      case (Inl p3)
      with assms(1) mc Inr ps v2 show ?thesis
        by (simp add: checks_and_prompts_def done_audit_def Let_def cands_def)
    next
      case r2: (Inr p3)
      with assms(1) mc Inr ps v2 show ?thesis
        by (auto simp: checks_and_prompts_def done_audit_def Let_def cands_def)
    qed
    then have q: "model_checks q = model_checks p1" "working_models q = working_models p1"
      "failing_models q = failing_models p1"
      "model_used q = (case working_models p1 of w # _ \<Rightarrow> w | [] \<Rightarrow> ChooseModel pool preferred)"
      by (simp_all add: verdicts_def choose_model_used_def)
    from Inr v(5) have "checked e (loads s) cands = length cands" by auto
    with q v(1-4) Inr show ?thesis
      by (simp add: done_audit_def)
  qed
  then show "model_checks q = model_checks p @ made"
    and "working_models q = working_models p @ map mc_model (filter mc_working made)"
    and "failing_models q = failing_models p @ map mc_model (filter (\<lambda>c. \<not> mc_working c) made)"
    and "model_used q =
           (if checked e (loads s) cands = length cands
            then (case working_models q of w # _ \<Rightarrow> w | [] \<Rightarrow> ChooseModel pool preferred)
            else model_used p)"
    by simp_all
qed

lemma distinct_map_filter_parts:
  assumes "distinct (map f xs)"
  shows "distinct (map f (filter P xs) @ map f (filter (\<lambda>x. \<not> P x) xs))"
    and "set (map f (filter P xs)) \<union> set (map f (filter (\<lambda>x. \<not> P x) xs)) = set (map f xs)"
proof -
  from assms have "inj_on f (set xs)" and "distinct xs"
    by (simp_all add: distinct_map)
  then show "distinct (map f (filter P xs) @ map f (filter (\<lambda>x. \<not> P x) xs))"
    by (auto simp: distinct_map inj_on_def)
  show "set (map f (filter P xs)) \<union> set (map f (filter (\<lambda>x. \<not> P x) xs)) = set (map f xs)"
    by auto
qed

lemma phase_outcome_fresh:
  assumes "no_checks_yet p"
    and "checks_and_prompts e extract url_of tag log pool preferred p s = (q, s')"
  shows "phase_outcome e extract (loads s) (length (sent s)) pool preferred q"
  using checks_and_prompts_verdicts [OF assms(2)] assms(1)
  by (simp add: phase_outcome_def no_checks_yet_def Let_def)

lemma phase_outcome_parts:
  assumes "phase_outcome e extract k0 r0 pool preferred q"
  defines "cands \<equiv> TopCandidates pool preferred 8"
  defines "n \<equiv> checked e k0 cands"
  shows "map mc_model (model_checks q) = take n cands"
    and "distinct (working_models q @ failing_models q)"
    and "set (working_models q) \<union> set (failing_models q) = set (take n cands)"
    and "n = length cands \<Longrightarrow> pool \<noteq> [] \<Longrightarrow> model_used q \<in> set pool"
    and "sorted_verdicts q"
proof -
  from assms(1) have mcs: "model_checks q = checks_of e extract r0 (take n cands)"
    and ws: "working_models q = map mc_model (filter mc_working (model_checks q))"
    and fs: "failing_models q = map mc_model (filter (\<lambda>c. \<not> mc_working c) (model_checks q))"
    and mu: "model_used q =
           (if n = length cands
            then (case working_models q of w # _ \<Rightarrow> w | [] \<Rightarrow> ChooseModel pool preferred)
            else [])"
    by (simp_all add: phase_outcome_def Let_def cands_def n_def)
  show names: "map mc_model (model_checks q) = take n cands"
    by (simp add: mcs)
  then have d: "distinct (map mc_model (model_checks q))"
    by (simp add: cands_def distinct_TopCandidates)
  from distinct_map_filter_parts [OF d, of mc_working] ws fs names
  show parts: "distinct (working_models q @ failing_models q)"
    "set (working_models q) \<union> set (failing_models q) = set (take n cands)"
    by simp_all
  show "model_used q \<in> set pool" if full: "n = length cands" and ne: "pool \<noteq> []"
  proof (cases "working_models q")
    case Nil
    with mu full ChooseModel_in_pool [OF ne] show ?thesis by simp
  next
    case (Cons w ws)
    then have "w \<in> set (working_models q) \<union> set (failing_models q)" by simp
    then have "w \<in> set cands"
      unfolding parts(2) using full by simp
    moreover have "set cands \<subseteq> set pool"
      unfolding cands_def by (rule set_TopCandidates) simp
    ultimately show ?thesis
      using mu full Cons by auto
  qed
  from ws fs d show "sorted_verdicts q"
    by (simp add: sorted_verdicts_def)
qed

lemma sorted_verdicts_none: "verdicts q = ([], [], [], []) \<Longrightarrow> sorted_verdicts q"
  by (simp add: verdicts_def sorted_verdicts_def)

lemma no_checks_yet_verdicts: "no_checks_yet p \<longleftrightarrow> verdicts p = ([], [], [], [])"
  by (auto simp: no_checks_yet_def verdicts_def)

lemma Request_after_log:
  assumes "log_only log" and "Request e method url (log m s) = (r, s2)"
  shows "r = sender e (length (sent s))" and "loads s2 = loads s"
    and "length (sent s2) = Suc (length (sent s))"
  using assms by (auto simp: Request_def log_only_def)

lemma AuditOpenAICompatible_reaches:
  assumes "key \<noteq> []"
  shows "\<exists>p r s2. verdicts p = ([], [], [], []) \<and>
           Request e ''GET'' list_url (log (''['' @ pname @ ''] Fetching model list'') s) = (r, s2) \<and>
           fst (AuditOpenAICompatible e pid pname key list_url chat_url preferred log s) =
             (if ExtractModelIds (ParseJson (parse e) (resp_body r)) = []
              then FinalizeMetrics (p\<lparr>notes := ''No models discovered or access denied.''\<rparr>)
              else fst (checks_and_prompts e ExtractOpenAIText (\<lambda>model. chat_url) pname log
                     (ExtractModelIds (ParseJson (parse e) (resp_body r))) preferred p s2))"
proof -
  let ?s1 = "log (''['' @ pname @ ''] Fetching model list'') s"
  obtain r s2 where rq: "Request e ''GET'' list_url ?s1 = (r, s2)"
    by (cases "Request e ''GET'' list_url ?s1")
  let ?j = "ParseJson (parse e) (resp_body r)"
  let ?p = "record_discovery
              (record_list_response (start_audit pid pname key) list_url r
                 \<lparr>raw_payload := AList.update ''models_response'' ?j
                    (raw_payload (record_list_response (start_audit pid pname key) list_url r))\<rparr>)
              (ExtractModelIds ?j) ?j"
  have "verdicts ?p = ([], [], [], [])"
    by (simp add: verdicts_start_audit)
  moreover from assms rq
  have "fst (AuditOpenAICompatible e pid pname key list_url chat_url preferred log s) =
             (if ExtractModelIds ?j = []
              then FinalizeMetrics (?p\<lparr>notes := ''No models discovered or access denied.''\<rparr>)
              else fst (checks_and_prompts e ExtractOpenAIText (\<lambda>model. chat_url) pname log
                     (ExtractModelIds ?j) preferred ?p s2))"
    by (simp add: AuditOpenAICompatible_def Let_def)
  ultimately show ?thesis using rq by blast
qed

lemma AuditGoogle_reaches:
  assumes "key \<noteq> []"
  shows "\<exists>p r s2. verdicts p = ([], [], [], []) \<and>
           Request e ''GET'' (''https://generativelanguage.googleapis.com/v1beta/models?key='' @ key)
             (log ''[Google AI Studio] Fetching model list'' s) = (r, s2) \<and>
           fst (AuditGoogle e key log s) =
             (if sorted_list_of_set (set (fold google_item
                   (models_array (ParseJson (parse e) (resp_body r))) [])) = []
              then FinalizeMetrics (p\<lparr>notes := ''No generateContent models discovered.''\<rparr>)
              else fst (checks_and_prompts e ExtractGoogleText (google_url key) ''Google AI Studio'' log
                     (sorted_list_of_set (set (fold google_item
                        (models_array (ParseJson (parse e) (resp_body r))) [])))
                     google_preferred p s2))"
proof -
  let ?url = "''https://generativelanguage.googleapis.com/v1beta/models?key='' @ key"
  let ?s1 = "log ''[Google AI Studio] Fetching model list'' s"
  let ?p0 = "start_audit ''google_ai_studio'' ''Google AI Studio'' key"
  obtain r s2 where rq: "Request e ''GET'' ?url ?s1 = (r, s2)"
    by (cases "Request e ''GET'' ?url ?s1")
  let ?j = "ParseJson (parse e) (resp_body r)"
  let ?d = "sorted_list_of_set (set (fold google_item (models_array ?j) []))"
  let ?p = "record_discovery
              (record_list_response ?p0 ?url r
                 \<lparr>raw_payload := AList.update ''models_response'' ?j
                    (raw_payload (record_list_response ?p0 ?url r))\<rparr>)
              ?d ?j"
  have "verdicts ?p = ([], [], [], [])"
    by (simp add: verdicts_start_audit)
  moreover from assms rq
  have "fst (AuditGoogle e key log s) =
             (if ?d = []
              then FinalizeMetrics (?p\<lparr>notes := ''No generateContent models discovered.''\<rparr>)
              else fst (checks_and_prompts e ExtractGoogleText (google_url key) ''Google AI Studio'' log
                     ?d google_preferred ?p s2))"
    by (simp add: AuditGoogle_def Let_def)
  ultimately show ?thesis using rq by blast
qed

lemma AuditOpenAICompatible_phase:
  assumes "log_only log" and "key \<noteq> []" and "openai_discovered e s \<noteq> []"
  shows "phase_outcome e ExtractOpenAIText (loads s) (Suc (length (sent s)))
           (openai_discovered e s) preferred
           (fst (AuditOpenAICompatible e pid pname key list_url chat_url preferred log s))"
proof -
  from AuditOpenAICompatible_reaches [OF assms(2), of e list_url log pname s pid chat_url preferred]
  obtain p r s2 where p: "verdicts p = ([], [], [], [])"
    and rq: "Request e ''GET'' list_url (log (''['' @ pname @ ''] Fetching model list'') s) = (r, s2)"
    and run: "fst (AuditOpenAICompatible e pid pname key list_url chat_url preferred log s) =
             (if ExtractModelIds (ParseJson (parse e) (resp_body r)) = []
              then FinalizeMetrics (p\<lparr>notes := ''No models discovered or access denied.''\<rparr>)
              else fst (checks_and_prompts e ExtractOpenAIText (\<lambda>model. chat_url) pname log
                     (ExtractModelIds (ParseJson (parse e) (resp_body r))) preferred p s2))"
    by blast
  note st = Request_after_log [OF assms(1) rq]
  from st(1) have d: "ExtractModelIds (ParseJson (parse e) (resp_body r)) = openai_discovered e s"
    by (simp add: openai_discovered_def)
  let ?run = "checks_and_prompts e ExtractOpenAIText (\<lambda>model. chat_url) pname log
                (openai_discovered e s) preferred p s2"
  from p have "no_checks_yet p" by (simp only: no_checks_yet_verdicts)
  from phase_outcome_fresh [OF this, of e ExtractOpenAIText _ pname log _ preferred s2 "fst ?run" "snd ?run"]
  have "phase_outcome e ExtractOpenAIText (loads s2) (length (sent s2)) (openai_discovered e s)
          preferred (fst ?run)"
    by simp
  with run d assms(3) st(2,3) show ?thesis by simp
qed

lemma AuditGoogle_phase:
  assumes "log_only log" and "key \<noteq> []" and "google_discovered e s \<noteq> []"
  shows "phase_outcome e ExtractGoogleText (loads s) (Suc (length (sent s)))
           (google_discovered e s) google_preferred (fst (AuditGoogle e key log s))"
proof -
  from AuditGoogle_reaches [OF assms(2), of e log s]
  obtain p r s2 where p: "verdicts p = ([], [], [], [])"
    and rq: "Request e ''GET'' (''https://generativelanguage.googleapis.com/v1beta/models?key='' @ key)
             (log ''[Google AI Studio] Fetching model list'' s) = (r, s2)"
    and run: "fst (AuditGoogle e key log s) =
             (if sorted_list_of_set (set (fold google_item
                   (models_array (ParseJson (parse e) (resp_body r))) [])) = []
              then FinalizeMetrics (p\<lparr>notes := ''No generateContent models discovered.''\<rparr>)
              else fst (checks_and_prompts e ExtractGoogleText (google_url key) ''Google AI Studio'' log
                     (sorted_list_of_set (set (fold google_item
                        (models_array (ParseJson (parse e) (resp_body r))) [])))
                     google_preferred p s2))"
    by blast
  note st = Request_after_log [OF assms(1) rq]
  from st(1) have d: "sorted_list_of_set (set (fold google_item
                   (models_array (ParseJson (parse e) (resp_body r))) [])) = google_discovered e s"
    by (simp add: google_discovered_def)
  let ?run = "checks_and_prompts e ExtractGoogleText (google_url key) ''Google AI Studio'' log
                (google_discovered e s) google_preferred p s2"
  from p have "no_checks_yet p" by (simp only: no_checks_yet_verdicts)
  from phase_outcome_fresh [OF this, of e ExtractGoogleText _ _ log _ google_preferred s2 "fst ?run" "snd ?run"]
  have "phase_outcome e ExtractGoogleText (loads s2) (length (sent s2)) (google_discovered e s)
          google_preferred (fst ?run)"
    by simp
  with run d assms(3) st(2,3) show ?thesis by simp
qed

lemma AuditOpenAICompatible_sorted_verdicts:
  "sorted_verdicts (fst (AuditOpenAICompatible e pid pname key list_url chat_url preferred log s))"
proof (cases "key = []")
  case True
  then show ?thesis
    by (simp add: AuditOpenAICompatible_def Let_def sorted_verdicts_none verdicts_start_audit)
next
  case False
  from AuditOpenAICompatible_reaches [OF False, of e list_url log pname s pid chat_url preferred]
  obtain p r s2 where p: "verdicts p = ([], [], [], [])"
    and rq: "Request e ''GET'' list_url (log (''['' @ pname @ ''] Fetching model list'') s) = (r, s2)"
    and run: "fst (AuditOpenAICompatible e pid pname key list_url chat_url preferred log s) =
             (if ExtractModelIds (ParseJson (parse e) (resp_body r)) = []
              then FinalizeMetrics (p\<lparr>notes := ''No models discovered or access denied.''\<rparr>)
              else fst (checks_and_prompts e ExtractOpenAIText (\<lambda>model. chat_url) pname log
                     (ExtractModelIds (ParseJson (parse e) (resp_body r))) preferred p s2))"
    by blast
  let ?d = "ExtractModelIds (ParseJson (parse e) (resp_body r))"
  let ?run = "checks_and_prompts e ExtractOpenAIText (\<lambda>model. chat_url) pname log ?d preferred p s2"
  from p have "no_checks_yet p" by (simp only: no_checks_yet_verdicts)
  from phase_outcome_fresh [OF this, of e ExtractOpenAIText _ pname log ?d preferred s2 "fst ?run" "snd ?run"]
  have "sorted_verdicts (fst ?run)"
    by (auto dest: phase_outcome_parts(5))
  with run p show ?thesis
    by (simp add: sorted_verdicts_none)
qed

lemma AuditGoogle_sorted_verdicts: "sorted_verdicts (fst (AuditGoogle e key log s))"
proof (cases "key = []")
  case True
  then show ?thesis
    by (simp add: AuditGoogle_def Let_def sorted_verdicts_none verdicts_start_audit)
next
  case False
  from AuditGoogle_reaches [OF False, of e log s]
  obtain p r s2 where p: "verdicts p = ([], [], [], [])"
    and rq: "Request e ''GET'' (''https://generativelanguage.googleapis.com/v1beta/models?key='' @ key)
             (log ''[Google AI Studio] Fetching model list'' s) = (r, s2)"
    and run: "fst (AuditGoogle e key log s) =
             (if sorted_list_of_set (set (fold google_item
                   (models_array (ParseJson (parse e) (resp_body r))) [])) = []
              then FinalizeMetrics (p\<lparr>notes := ''No generateContent models discovered.''\<rparr>)
              else fst (checks_and_prompts e ExtractGoogleText (google_url key) ''Google AI Studio'' log
                     (sorted_list_of_set (set (fold google_item
                        (models_array (ParseJson (parse e) (resp_body r))) [])))
                     google_preferred p s2))"
    by blast
  let ?d = "sorted_list_of_set (set (fold google_item
              (models_array (ParseJson (parse e) (resp_body r))) []))"
  let ?run = "checks_and_prompts e ExtractGoogleText (google_url key) ''Google AI Studio'' log ?d
                google_preferred p s2"
  from p have "no_checks_yet p" by (simp only: no_checks_yet_verdicts)
  from phase_outcome_fresh [OF this, of e ExtractGoogleText _ _ log ?d google_preferred s2 "fst ?run" "snd ?run"]
  have "sorted_verdicts (fst ?run)"
    by (auto dest: phase_outcome_parts(5))
  with run p show ?thesis
    by (simp add: sorted_verdicts_none)
qed

text \<open>
  Claim C10, as the code has it.  The statements shared by the adapters, started on a
  provider without checks, end in \<open>phase_outcome\<close>; so does a run of
  \<^verbatim>\<open>AuditOpenAICompatible\<close> or of \<^verbatim>\<open>AuditGoogle\<close> that has a key and discovers at least
  one model.  In that outcome each checked candidate has exactly one \<^verbatim>\<open>ModelCheck\<close>, in
  check order, and its id is in exactly one of \<^verbatim>\<open>working_models\<close> and
  \<^verbatim>\<open>failing_models\<close>, working exactly if the status is in [200, 300) and the extracted
  answer is not empty; the two lists are disjoint and together hold the checked
  candidates.  If the loop ran to its end, \<^verbatim>\<open>model_used\<close> is the first working model,
  else the \<^verbatim>\<open>ChooseModel\<close> fallback, and one of the discovered ids; if the run was
  cancelled in the loop, \<^verbatim>\<open>model_used\<close> is still empty.  In every run of the two
  adapters the working and the failing models are the models of the working and of the
  other checks, and no model is checked twice.
\<close>

theorem model_check_phase:
  "(no_checks_yet p \<longrightarrow>
      phase_outcome e extract (loads s) (length (sent s)) pool preferred
        (fst (checks_and_prompts e extract url_of tag log pool preferred p s))) \<and>
   (log_only log \<and> key \<noteq> [] \<and> openai_discovered e s \<noteq> [] \<longrightarrow>
      phase_outcome e ExtractOpenAIText (loads s) (Suc (length (sent s)))
        (openai_discovered e s) preferred_models
        (fst (AuditOpenAICompatible e pid pname key list_url chat_url preferred_models log s))) \<and>
   (log_only log \<and> key \<noteq> [] \<and> google_discovered e s \<noteq> [] \<longrightarrow>
      phase_outcome e ExtractGoogleText (loads s) (Suc (length (sent s)))
        (google_discovered e s) google_preferred (fst (AuditGoogle e key log s))) \<and>
   (phase_outcome e extract first_load first_request pool preferred q \<longrightarrow>
      (let cands = TopCandidates pool preferred 8;
           n = checked e first_load cands
       in map mc_model (model_checks q) = take n cands \<and>
          distinct (working_models q @ failing_models q) \<and>
          set (working_models q) \<union> set (failing_models q) = set (take n cands) \<and>
          (n = length cands \<and> pool \<noteq> [] \<longrightarrow> model_used q \<in> set pool))) \<and>
   sorted_verdicts (fst (AuditOpenAICompatible e pid pname key list_url chat_url preferred_models log s)) \<and>
   sorted_verdicts (fst (AuditGoogle e key log s))"
proof -
  have a: "no_checks_yet p \<longrightarrow>
      phase_outcome e extract (loads s) (length (sent s)) pool preferred
        (fst (checks_and_prompts e extract url_of tag log pool preferred p s))"
    using phase_outcome_fresh [of p e "extract" url_of tag log pool preferred s] by (metis prod.collapse)
  have b: "log_only log \<and> key \<noteq> [] \<and> openai_discovered e s \<noteq> [] \<longrightarrow>
      phase_outcome e ExtractOpenAIText (loads s) (Suc (length (sent s)))
        (openai_discovered e s) preferred_models
        (fst (AuditOpenAICompatible e pid pname key list_url chat_url preferred_models log s))"
    using AuditOpenAICompatible_phase by blast
  have c: "log_only log \<and> key \<noteq> [] \<and> google_discovered e s \<noteq> [] \<longrightarrow>
      phase_outcome e ExtractGoogleText (loads s) (Suc (length (sent s)))
        (google_discovered e s) google_preferred (fst (AuditGoogle e key log s))"
    using AuditGoogle_phase by blast
  have d: "phase_outcome e extract first_load first_request pool preferred q \<longrightarrow>
      (let cands = TopCandidates pool preferred 8;
           n = checked e first_load cands
       in map mc_model (model_checks q) = take n cands \<and>
          distinct (working_models q @ failing_models q) \<and>
          set (working_models q) \<union> set (failing_models q) = set (take n cands) \<and>
          (n = length cands \<and> pool \<noteq> [] \<longrightarrow> model_used q \<in> set pool))"
  proof
    assume po: "phase_outcome e extract first_load first_request pool preferred q"
    note parts = phase_outcome_parts [OF po]
    show "let cands = TopCandidates pool preferred 8;
           n = checked e first_load cands
       in map mc_model (model_checks q) = take n cands \<and>
          distinct (working_models q @ failing_models q) \<and>
          set (working_models q) \<union> set (failing_models q) = set (take n cands) \<and>
          (n = length cands \<and> pool \<noteq> [] \<longrightarrow> model_used q \<in> set pool)"
      unfolding Let_def using parts(1) parts(2) parts(3) parts(4) by simp
  qed
  from a b c d AuditOpenAICompatible_sorted_verdicts AuditGoogle_sorted_verdicts
  show ?thesis by (intro conjI)
qed



lemma probe_facts:
  "ExtractModelIds list_body = [''m1'', ''m2'']"
  "TopCandidates [''m1'', ''m2''] [] 8 = [''m1'', ''m2'']"
  "ExtractOpenAIText chat_body = ''OK''"
  "ExtractModelIds blank_body = [[]]"
  "TopCandidates [[]] [] 8 = [[]]"
  "ChooseModel [[]] [] = []"
  by code_simp+

lemma probe_discovered:
  "openai_discovered (env_probe flag models st) fresh_state = ExtractModelIds models"
  by (simp add: openai_discovered_def env_probe_def fresh_state_def ParseJson_def)

lemma probe_check:
  "model_check_of (env_probe flag models st) ExtractOpenAIText m (sender (env_probe flag models st) (Suc k)) =
     \<lparr> mc_model = m, mc_status = st, mc_latency_ms = 7, mc_working = (200 \<le> st \<and> st < 300),
       mc_error_snippet = ''C'' \<rparr>"
  by (simp add: model_check_of_def env_probe_def ParseJson_def probe_facts Snippet_def kSnippetLen_def)

text \<open>
  Where the code leaves the wording of C10.  In the first run two models are discovered,
  the first is checked and works, and the flag is set before the second check: the
  adapter returns with \<^verbatim>\<open>model_used\<close> empty.  In the second run the only discovered id is
  the empty string: it fails its check, the fallback chooses it, and \<^verbatim>\<open>model_used\<close> is
  empty although the discovery is not.
\<close>

theorem model_check_phase_counterexample:
  "(let e = env_probe (\<lambda>k. 0 < k) list_body 200;
        q = fst (AuditOpenAICompatible e ''p'' ''P'' ''sk'' ''lu'' ''cu'' [] (push_log e) fresh_state)
    in openai_discovered e fresh_state = [''m1'', ''m2''] \<and> working_models q = [''m1''] \<and>
       model_used q = []) \<and>
   (let e = env_probe (\<lambda>k. False) blank_body 500;
        q = fst (AuditOpenAICompatible e ''p'' ''P'' ''sk'' ''lu'' ''cu'' [] (push_log e) fresh_state)
    in openai_discovered e fresh_state = [[]] \<and> failing_models q = [[]] \<and> model_used q = [])"
proof -
  let ?e1 = "env_probe (\<lambda>k. 0 < k) list_body 200"
  let ?q1 = "fst (AuditOpenAICompatible ?e1 ''p'' ''P'' ''sk'' ''lu'' ''cu'' [] (push_log ?e1) fresh_state)"
  have d1: "openai_discovered ?e1 fresh_state = [''m1'', ''m2'']"
    by (simp add: probe_discovered probe_facts)
  have "phase_outcome ?e1 ExtractOpenAIText (loads fresh_state) (Suc (length (sent fresh_state)))
          (openai_discovered ?e1 fresh_state) [] ?q1"
    by (rule AuditOpenAICompatible_phase) (simp_all add: d1)
  then have o1: "working_models ?q1 = [''m1''] \<and> model_used ?q1 = []"
    unfolding d1 phase_outcome_def probe_facts Let_def
    by (simp add: fresh_state_def probe_check) (simp add: env_probe_def)
  let ?e2 = "env_probe (\<lambda>k. False) blank_body 500"
  let ?q2 = "fst (AuditOpenAICompatible ?e2 ''p'' ''P'' ''sk'' ''lu'' ''cu'' [] (push_log ?e2) fresh_state)"
  have d2: "openai_discovered ?e2 fresh_state = [[]]"
    by (simp add: probe_discovered probe_facts)
  have "phase_outcome ?e2 ExtractOpenAIText (loads fresh_state) (Suc (length (sent fresh_state)))
          (openai_discovered ?e2 fresh_state) [] ?q2"
    by (rule AuditOpenAICompatible_phase) (simp_all add: d2)
  then have o2: "failing_models ?q2 = [[]] \<and> model_used ?q2 = []"
    unfolding d2 phase_outcome_def probe_facts Let_def
    by (simp add: fresh_state_def probe_check) (simp add: env_probe_def)
  from d1 o1 d2 o2 show ?thesis
    unfolding Let_def by (intro conjI) simp_all
qed

theorem model_check_phase_witness:
  "(let e = env_probe (\<lambda>k. False) list_body 200;
        q = fst (AuditOpenAICompatible e ''p'' ''P'' ''sk'' ''lu'' ''cu'' [] (push_log e) fresh_state)
    in map mc_model (model_checks q) = [''m1'', ''m2''] \<and> working_models q = [''m1'', ''m2''] \<and>
       failing_models q = [] \<and> model_used q = ''m1'')"
proof -
  let ?e = "env_probe (\<lambda>k. False) list_body 200"
  let ?q = "fst (AuditOpenAICompatible ?e ''p'' ''P'' ''sk'' ''lu'' ''cu'' [] (push_log ?e) fresh_state)"
  have d: "openai_discovered ?e fresh_state = [''m1'', ''m2'']"
    by (simp add: probe_discovered probe_facts)
  have h: "log_only (push_log ?e) \<and> ''sk'' \<noteq> [] \<and> openai_discovered ?e fresh_state \<noteq> []"
    by (simp add: d)
  with model_check_phase [where e = ?e and log = "push_log ?e" and key = "''sk''" and s = fresh_state
         and preferred_models = "[]" and pid = "''p''" and pname = "''P''" and list_url = "''lu''"
         and chat_url = "''cu''"]
  have "phase_outcome ?e ExtractOpenAIText (loads fresh_state) (Suc (length (sent fresh_state)))
          (openai_discovered ?e fresh_state) [] ?q"
    by blast
  then show ?thesis
    unfolding d phase_outcome_def probe_facts Let_def
    by (simp add: fresh_state_def probe_check) (simp add: env_probe_def)
qed


section \<open>The orchestrator under cancellation\<close>

lemma provider_id_steps [simp]:
  "provider_id (AddTrace p step method url r) = provider_id p"
  "provider_id (FinalizeMetrics p) = provider_id p"
  "provider_id (ScoreProvider p) = provider_id p"
  "provider_id (canceled_note p) = provider_id p"
  "provider_id (choose_model_used pool preferred p) = provider_id p"
  "provider_id (record_discovery p d j) = provider_id p"
  "provider_id (record_list_response p url r) = provider_id p"
  "provider_id (record_auth_response p url r) = provider_id p"
  "provider_id (start_audit pid pname key) = pid"
  by (simp_all add: AddTrace_def FinalizeMetrics_def ScoreProvider_def canceled_note_def
        choose_model_used_def record_discovery_def record_list_response_def
        record_auth_response_def start_audit_def Let_def)

lemma ModelChecks_provider_id:
  "ModelChecks e extract url_of cands p s = (r, s') \<Longrightarrow> provider_id (done_audit r) = provider_id p"
proof (induction cands arbitrary: p s)
  case Nil
  then show ?case by (auto simp: done_audit_def)
next
  case (Cons model rest)
  show ?case
  proof (cases "cancel_requested e (loads s)")
    case True
    with Cons.prems have "r = Inl (canceled_note p)"
      by (auto simp: load_cancel_def)
    then show ?thesis by (simp add: done_audit_def)
  next
    case False
    with Cons.prems obtain p2 s2 where
      run: "ModelChecks e extract url_of rest p2 s2 = (r, s')" and v: "provider_id p2 = provider_id p"
      by (auto simp: load_cancel_def Request_def Let_def split: if_splits)
    from Cons.IH [OF run] v show ?thesis by simp
  qed
qed

lemma PromptSuite_provider_id:
  "PromptSuite e extract url tag log prompts p s = (r, s') \<Longrightarrow>
   provider_id (done_audit r) = provider_id p"
proof (induction prompts arbitrary: p s)
  case Nil
  then show ?case by (auto simp: done_audit_def)
next
  case (Cons prompt rest)
  show ?case
  proof (cases "cancel_requested e (loads s)")
    case True
    with Cons.prems have "r = Inl (canceled_note p)"
      by (auto simp: load_cancel_def)
    then show ?thesis by (simp add: done_audit_def)
  next
    case False
    with Cons.prems obtain p2 s2 where
      run: "PromptSuite e extract url tag log rest p2 s2 = (r, s')" and v: "provider_id p2 = provider_id p"
      by (auto simp: load_cancel_def Request_def Let_def)
    from Cons.IH [OF run] v show ?thesis by simp
  qed
qed

lemma checks_and_prompts_provider_id [simp]:
  "provider_id (fst (checks_and_prompts e extract url_of tag log pool preferred p s)) = provider_id p"
proof -
  obtain r1 s1 where mc: "ModelChecks e extract url_of (TopCandidates pool preferred 8) p s = (r1, s1)"
    by (cases "ModelChecks e extract url_of (TopCandidates pool preferred 8) p s")
  note a = ModelChecks_provider_id [OF mc]
  show ?thesis
  proof (cases r1)
    case (Inl p1)
    with mc a show ?thesis
      by (simp add: checks_and_prompts_def done_audit_def)
  next
    case (Inr p1)
    let ?p2 = "choose_model_used pool preferred p1"
    obtain r2 s2 where ps:
      "PromptSuite e extract (url_of (model_used ?p2)) tag log kPromptSuite ?p2 s1 = (r2, s2)"
      by (cases "PromptSuite e extract (url_of (model_used ?p2)) tag log kPromptSuite ?p2 s1")
    note b = PromptSuite_provider_id [OF ps]
    from mc Inr ps a b show ?thesis
      by (cases r2) (simp_all add: checks_and_prompts_def done_audit_def Let_def)
  qed
qed

lemma launch_id_openai:
  "launch_id (AuditOpenAICompatible e pid pname key lu cu prefs log) pid"
  by (simp add: launch_id_def AuditOpenAICompatible_def Let_def case_prod_beta)

lemma launch_id_google: "launch_id (AuditGoogle e key log) ''google_ai_studio''"
  by (simp add: launch_id_def AuditGoogle_def Let_def case_prod_beta)

lemma launch_id_cohere: "launch_id (AuditCohere e key log) ''cohere''"
  by (simp add: launch_id_def AuditCohere_def Let_def case_prod_beta)

lemma launch_id_vercel: "launch_id (AuditVercel e key log) ''vercel''"
  by (simp add: launch_id_def AuditVercel_def Let_def case_prod_beta)

lemma launch_id_github: "launch_id (AuditGitHubToken e pid pname token log) pid"
  by (simp add: launch_id_def AuditGitHubToken_def Let_def case_prod_beta)

lemma launch_id_later: "list_all2 launch_id (later_launches e keys) (tl roster)"
  by (simp add: later_launches_def roster_def launch_mistral_def launch_groq_def launch_ai21_def
        launch_id_openai launch_id_google launch_id_cohere launch_id_vercel launch_id_github)

lemma unless_canceled_cases:
  "unless_canceled e l st =
     (if cancel_requested e (loads (snd st))
      then (fst st, snd st\<lparr>loads := Suc (loads (snd st))\<rparr>)
      else (fst st @ [fst (l (snd st\<lparr>loads := Suc (loads (snd st))\<rparr>))],
            snd (l (snd st\<lparr>loads := Suc (loads (snd st))\<rparr>))))"
  by (simp add: unless_canceled_def load_cancel_def case_prod_beta)

lemma fold_unless_canceled_subseq:
  "list_all2 launch_id ls ids \<Longrightarrow>
   \<exists>picked. subseq picked ids \<and>
     map provider_id (fst (fold (unless_canceled e) ls st)) = map provider_id (fst st) @ picked"
proof (induction ls arbitrary: st ids)
  case Nil
  then show ?case by simp
next
  case (Cons l ls)
  from Cons.prems obtain pid ids' where ids: "ids = pid # ids'"
    and l: "launch_id l pid" and rest: "list_all2 launch_id ls ids'"
    by (auto simp: list_all2_Cons1)
  from Cons.IH [OF rest, of "unless_canceled e l st"] obtain picked where
    sub: "subseq picked ids'" and
    eq: "map provider_id (fst (fold (unless_canceled e) ls (unless_canceled e l st))) =
           map provider_id (fst (unless_canceled e l st)) @ picked"
    by blast
  show ?case
  proof (cases "cancel_requested e (loads (snd st))")
    case True
    then have "fst (unless_canceled e l st) = fst st"
      by (simp add: unless_canceled_cases)
    with sub eq ids show ?thesis
      by (intro exI [of _ picked]) auto
  next
    case False
    then have "map provider_id (fst (unless_canceled e l st)) = map provider_id (fst st) @ [pid]"
      using l by (simp add: unless_canceled_cases launch_id_def)
    with sub eq ids show ?thesis
      by (intro exI [of _ "pid # picked"]) simp
  qed
qed

lemma fold_unless_canceled_stopped:
  "flag_stays e \<Longrightarrow> cancel_requested e k \<Longrightarrow> k \<le> loads (snd st) \<Longrightarrow>
   fst (fold (unless_canceled e) ls st) = fst st"
proof (induction ls arbitrary: st)
  case Nil
  show ?case by simp
next
  case (Cons l ls)
  from Cons.prems have c: "cancel_requested e (loads (snd st))"
    unfolding flag_stays_def by blast
  then have step: "unless_canceled e l st = (fst st, snd st\<lparr>loads := Suc (loads (snd st))\<rparr>)"
    by (simp add: unless_canceled_cases)
  with Cons.prems(3) have "k \<le> loads (snd (unless_canceled e l st))"
    by simp
  from Cons.IH [OF Cons.prems(1,2) this] step show ?case
    by simp
qed

lemma fold_unless_canceled_prefix:
  "flag_stays e \<Longrightarrow> list_all2 launch_id ls ids \<Longrightarrow>
   \<exists>k. map provider_id (fst (fold (unless_canceled e) ls st)) = map provider_id (fst st) @ take k ids"
proof (induction ls arbitrary: st ids)
  case Nil
  then show ?case by simp
next
  case (Cons l ls)
  from Cons.prems(2) obtain pid ids' where ids: "ids = pid # ids'"
    and l: "launch_id l pid" and rest: "list_all2 launch_id ls ids'"
    by (auto simp: list_all2_Cons1)
  show ?case
  proof (cases "cancel_requested e (loads (snd st))")
    case True
    then have step: "unless_canceled e l st = (fst st, snd st\<lparr>loads := Suc (loads (snd st))\<rparr>)"
      by (simp add: unless_canceled_cases)
    then have "loads (snd st) \<le> loads (snd (unless_canceled e l st))"
      by simp
    from fold_unless_canceled_stopped [OF Cons.prems(1) True this, of ls] step
    have "fst (fold (unless_canceled e) (l # ls) st) = fst st"
      by simp
    then show ?thesis
      by (intro exI [of _ 0]) simp
  next
    case False
    then have step: "map provider_id (fst (unless_canceled e l st)) = map provider_id (fst st) @ [pid]"
      using l by (simp add: unless_canceled_cases launch_id_def)
    from Cons.IH [OF Cons.prems(1) rest, of "unless_canceled e l st"] obtain k where
      "map provider_id (fst (fold (unless_canceled e) ls (unless_canceled e l st))) =
         map provider_id (fst (unless_canceled e l st)) @ take k ids'"
      by blast
    with step ids show ?thesis
      by (intro exI [of _ "Suc k"]) simp
  qed
qed

lemma fold_unless_canceled_all:
  "\<forall>k. \<not> cancel_requested e k \<Longrightarrow> list_all2 launch_id ls ids \<Longrightarrow>
   map provider_id (fst (fold (unless_canceled e) ls st)) = map provider_id (fst st) @ ids"
proof (induction ls arbitrary: st ids)
  case Nil
  then show ?case by simp
next
  case (Cons l ls)
  from Cons.prems(2) obtain pid ids' where ids: "ids = pid # ids'"
    and l: "launch_id l pid" and rest: "list_all2 launch_id ls ids'"
    by (auto simp: list_all2_Cons1)
  from Cons.prems(1) l
  have step: "map provider_id (fst (unless_canceled e l st)) = map provider_id (fst st) @ [pid]"
    by (simp add: unless_canceled_cases launch_id_def)
  from Cons.IH [OF Cons.prems(1) rest, of "unless_canceled e l st"] step ids show ?case
    by simp
qed

lemma all_launched_first:
  "\<exists>p s1. provider_id p = ''openrouter'' \<and>
      all_launched e keys s = fold (unless_canceled e) (later_launches e keys) ([p], s1)"
proof -
  let ?s0 = "push_log e ''Starting full provider audit'' s"
  let ?p = "fst (launch_openrouter e keys ?s0)"
  let ?s1 = "snd (launch_openrouter e keys ?s0)"
  have run: "all_launched e keys s = fold (unless_canceled e) (later_launches e keys) ([?p], ?s1)"
    by (simp add: all_launched_def case_prod_beta)
  have pid: "provider_id ?p = ''openrouter''"
    using launch_id_openai [where pid = "''openrouter''"]
    by (simp add: launch_openrouter_def launch_id_def)
  from pid run show ?thesis by blast
qed

lemma roster_split: "roster = ''openrouter'' # tl roster"
  by (simp add: roster_def)

lemma all_launched_subseq: "subseq (map provider_id (fst (all_launched e keys s))) roster"
proof -
  from all_launched_first [of e keys s] obtain p s1 where
    p: "provider_id p = ''openrouter''" and
    run: "all_launched e keys s = fold (unless_canceled e) (later_launches e keys) ([p], s1)"
    by blast
  from fold_unless_canceled_subseq [OF launch_id_later [of e keys], where st = "([p], s1)" and e = e]
    p run
  obtain picked where "subseq picked (tl roster)"
    and "map provider_id (fst (all_launched e keys s)) = ''openrouter'' # picked"
    by auto
  then show ?thesis
    by (subst roster_split) simp
qed

lemma all_launched_prefix:
  assumes "flag_stays e"
  shows "prefix (map provider_id (fst (all_launched e keys s))) roster"
proof -
  from all_launched_first [of e keys s] obtain p s1 where
    p: "provider_id p = ''openrouter''" and
    run: "all_launched e keys s = fold (unless_canceled e) (later_launches e keys) ([p], s1)"
    by blast
  from fold_unless_canceled_prefix [OF assms launch_id_later [of e keys], where st = "([p], s1)"]
    p run
  obtain k where "map provider_id (fst (all_launched e keys s)) = ''openrouter'' # take k (tl roster)"
    by auto
  then show ?thesis
    by (subst roster_split) (simp add: take_is_prefix)
qed

lemma all_launched_all:
  assumes "\<forall>k. \<not> cancel_requested e k"
  shows "map provider_id (fst (all_launched e keys s)) = roster"
proof -
  from all_launched_first [of e keys s] obtain p s1 where
    p: "provider_id p = ''openrouter''" and
    run: "all_launched e keys s = fold (unless_canceled e) (later_launches e keys) ([p], s1)"
    by blast
  from fold_unless_canceled_all [OF assms launch_id_later [of e keys], where st = "([p], s1)"]
    p run
  have "map provider_id (fst (all_launched e keys s)) = ''openrouter'' # tl roster"
    by simp
  then show ?thesis
    by (subst roster_split)
qed

lemma Run_providers:
  "providers (fst (Run e keys s)) =
     (if cancel_requested e (loads s) then []
      else fst (all_launched e keys (snd (snd (start_run e s)))))"
  by (simp add: Run_phases start_run_def NowUtc_def load_cancel_def case_prod_beta)

lemma Run_canceled_before_start:
  assumes "cancel_requested e (loads s)"
  shows "providers (fst (Run e keys s)) = []"
    and "run_logs (fst (Run e keys s)) = [''['' @ clock e (Suc (ticks s)) @ ''] Audit canceled before start.'']"
    and "sent (snd (Run e keys s)) = sent s"
  using assms
  by (simp_all add: Run_phases start_run_def NowUtc_def load_cancel_def push_log_def Let_def)

lemma fold_unless_canceled_stopped_sent:
  "flag_stays e \<Longrightarrow> cancel_requested e k \<Longrightarrow> k \<le> loads (snd st) \<Longrightarrow>
   sent (snd (fold (unless_canceled e) ls st)) = sent (snd st)"
proof (induction ls arbitrary: st)
  case Nil
  show ?case by simp
next
  case (Cons l ls)
  from Cons.prems have c: "cancel_requested e (loads (snd st))"
    unfolding flag_stays_def by blast
  then have step: "unless_canceled e l st = (fst st, snd st\<lparr>loads := Suc (loads (snd st))\<rparr>)"
    by (simp add: unless_canceled_cases)
  with Cons.prems(3) have "k \<le> loads (snd (unless_canceled e l st))"
    by simp
  from Cons.IH [OF Cons.prems(1,2) this] step show ?case
    by simp
qed

lemma fold_unless_canceled_spec:
  assumes "flag_stays e"
  shows "fst (fold (unless_canceled e) ls (ps, s)) = ps @ fst (spec_launches e ls s) \<and>
         sent (snd (fold (unless_canceled e) ls (ps, s))) = sent (snd (spec_launches e ls s))"
proof (induction ls arbitrary: ps s)
  case Nil
  show ?case by simp
next
  case (Cons l ls)
  let ?s1 = "s\<lparr>loads := Suc (loads s)\<rparr>"
  show ?case
  proof (cases "cancel_requested e (loads s)")
    case True
    then have step: "unless_canceled e l (ps, s) = (ps, ?s1)"
      by (simp add: unless_canceled_cases)
    have k: "loads s \<le> loads (snd (ps, ?s1))"
      by simp
    from fold_unless_canceled_stopped [OF assms True k, of ls]
      fold_unless_canceled_stopped_sent [OF assms True k, of ls] step True
    show ?thesis
      by (simp add: load_cancel_def)
  next
    case False
    let ?p = "fst (l ?s1)"
    let ?s2 = "snd (l ?s1)"
    from False have step: "unless_canceled e l (ps, s) = (ps @ [?p], ?s2)"
      by (simp add: unless_canceled_cases)
    from Cons.IH [of "ps @ [?p]" ?s2] step False show ?thesis
      by (simp add: load_cancel_def case_prod_beta)
  qed
qed

lemma Run_spec_launches:
  assumes "flag_stays e"
  shows "providers (fst (Run e keys s)) =
           fst (spec_launches e (launches e keys) (snd (NowUtc e (s\<lparr>report_logs := []\<rparr>))))"
    and "sent (snd (Run e keys s)) =
           sent (snd (spec_launches e (launches e keys) (snd (NowUtc e (s\<lparr>report_logs := []\<rparr>)))))"
proof -
  let ?s0 = "snd (NowUtc e (s\<lparr>report_logs := []\<rparr>))"
  let ?s1 = "?s0\<lparr>loads := Suc (loads ?s0)\<rparr>"
  let ?p = "fst (launch_openrouter e keys (push_log e ''Starting full provider audit'' ?s1))"
  let ?s2 = "snd (launch_openrouter e keys (push_log e ''Starting full provider audit'' ?s1))"
  have l0: "loads ?s0 = loads s"
    by (simp add: NowUtc_def)
  have start: "start_run e s =
                 (fst (NowUtc e (s\<lparr>report_logs := []\<rparr>)), cancel_requested e (loads s), ?s1)"
    by (simp add: start_run_def load_cancel_def case_prod_beta l0)
  note later = fold_unless_canceled_spec [OF assms, of "later_launches e keys" "[?p]" ?s2]
  show "providers (fst (Run e keys s)) = fst (spec_launches e (launches e keys) ?s0)"
  proof (cases "cancel_requested e (loads s)")
    case True
    then show ?thesis
      by (simp add: Run_phases start launches_def load_cancel_def l0)
  next
    case False
    with later show ?thesis
      by (simp add: Run_phases start launches_def load_cancel_def l0 all_launched_def case_prod_beta)
  qed
  show "sent (snd (Run e keys s)) = sent (snd (spec_launches e (launches e keys) ?s0))"
  proof (cases "cancel_requested e (loads s)")
    case True
    then show ?thesis
      by (simp add: Run_phases start launches_def load_cancel_def l0)
  next
    case False
    with later show ?thesis
      by (simp add: Run_phases start launches_def load_cancel_def l0 all_launched_def case_prod_beta)
  qed
qed

lemma launch_id_launches: "list_all2 launch_id (launches e keys) roster"
proof -
  have "launch_id (\<lambda>s. launch_openrouter e keys (push_log e ''Starting full provider audit'' s))
          ''openrouter''"
    using launch_id_openai [where pid = "''openrouter''"]
    by (simp add: launch_openrouter_def launch_id_def)
  with launch_id_later [of e keys] show ?thesis
    by (subst roster_split) (simp add: launches_def)
qed

text \<open>
  Claim C5.  If the flag is set when \<^verbatim>\<open>Run\<close> first loads it, the report has no provider,
  its log is the one line that the audit was cancelled before its start, and no request
  was sent.  Each later provider is guarded by a load of the flag: a set flag leaves the
  provider list as it is, a clear one appends the provider launched.  So the providers
  of the report are always some of the roster, in order; when a set flag stays set they
  are a prefix of the roster, the providers launched before the flag was found set;
  and when the flag is never set they are the whole roster.  When a set flag stays set,
  \<^verbatim>\<open>Run\<close> is the orchestrator of the specification: it loads the flag before each of
  the eleven launches of the roster, at the first load that finds the flag set it
  launches no further provider, the report holds exactly the providers launched until
  then, and the requests sent are those sent until then.
\<close>

theorem Run_cancellation:
  "(cancel_requested e (loads s) \<longrightarrow>
      providers (fst (Run e keys s)) = [] \<and>
      run_logs (fst (Run e keys s)) =
        [''['' @ clock e (Suc (ticks s)) @ ''] Audit canceled before start.''] \<and>
      sent (snd (Run e keys s)) = sent s) \<and>
   unless_canceled e launch (ps, s) =
     (if cancel_requested e (loads s) then (ps, s\<lparr>loads := Suc (loads s)\<rparr>)
      else (ps @ [fst (launch (s\<lparr>loads := Suc (loads s)\<rparr>))],
            snd (launch (s\<lparr>loads := Suc (loads s)\<rparr>)))) \<and>
   subseq (map provider_id (providers (fst (Run e keys s)))) roster \<and>
   (flag_stays e \<longrightarrow> prefix (map provider_id (providers (fst (Run e keys s)))) roster) \<and>
   ((\<forall>k. \<not> cancel_requested e k) \<longrightarrow> map provider_id (providers (fst (Run e keys s))) = roster) \<and>
   (flag_stays e \<longrightarrow>
      providers (fst (Run e keys s)) =
        fst (spec_launches e (launches e keys) (snd (NowUtc e (s\<lparr>report_logs := []\<rparr>)))) \<and>
      sent (snd (Run e keys s)) =
        sent (snd (spec_launches e (launches e keys) (snd (NowUtc e (s\<lparr>report_logs := []\<rparr>)))))) \<and>
   list_all2 launch_id (launches e keys) roster"
proof -
  have a: "cancel_requested e (loads s) \<longrightarrow>
      providers (fst (Run e keys s)) = [] \<and>
      run_logs (fst (Run e keys s)) =
        [''['' @ clock e (Suc (ticks s)) @ ''] Audit canceled before start.''] \<and>
      sent (snd (Run e keys s)) = sent s"
    using Run_canceled_before_start [of e s keys] by blast
  have b: "unless_canceled e launch (ps, s) =
     (if cancel_requested e (loads s) then (ps, s\<lparr>loads := Suc (loads s)\<rparr>)
      else (ps @ [fst (launch (s\<lparr>loads := Suc (loads s)\<rparr>))],
            snd (launch (s\<lparr>loads := Suc (loads s)\<rparr>))))"
    by (simp add: unless_canceled_cases)
  have c: "subseq (map provider_id (providers (fst (Run e keys s)))) roster"
    by (simp add: Run_providers all_launched_subseq)
  have d: "flag_stays e \<longrightarrow> prefix (map provider_id (providers (fst (Run e keys s)))) roster"
    by (simp add: Run_providers all_launched_prefix)
  have f: "(\<forall>k. \<not> cancel_requested e k) \<longrightarrow>
             map provider_id (providers (fst (Run e keys s))) = roster"
    by (simp add: Run_providers all_launched_all)
  have g: "flag_stays e \<longrightarrow>
      providers (fst (Run e keys s)) =
        fst (spec_launches e (launches e keys) (snd (NowUtc e (s\<lparr>report_logs := []\<rparr>)))) \<and>
      sent (snd (Run e keys s)) =
        sent (snd (spec_launches e (launches e keys) (snd (NowUtc e (s\<lparr>report_logs := []\<rparr>)))))"
    using Run_spec_launches [of e keys s] by blast
  from a b c d f g launch_id_launches show ?thesis by (intro conjI)
qed

lemma no_key [simp]:
  "AuditOpenAICompatible e pid pname [] lu cu prefs log s =
     (start_audit pid pname []\<lparr>notes := ''No API key supplied.''\<rparr>, s)"
  "AuditGoogle e [] log s =
     (start_audit ''google_ai_studio'' ''Google AI Studio'' []\<lparr>notes := ''No API key supplied.''\<rparr>, s)"
  "AuditCohere e [] log s = (start_audit ''cohere'' ''Cohere'' []\<lparr>notes := ''No API key supplied.''\<rparr>, s)"
  "AuditVercel e [] log s =
     (start_audit ''vercel'' ''Vercel AI Gateway'' []\<lparr>notes := ''No API key supplied.''\<rparr>, s)"
  "AuditGitHubToken e pid pname [] log s =
     (start_audit pid pname []\<lparr>notes := ''No API key supplied.''\<rparr>, s)"
  by (simp_all add: AuditOpenAICompatible_def AuditGoogle_def AuditCohere_def AuditVercel_def
        AuditGitHubToken_def)

lemma loads_push_log [simp]: "loads (push_log e m s) = loads s"
  by (simp add: push_log_def NowUtc_def Let_def)

lemma flag_env:
  "cancel_requested (env_flag f) k = f k" "log_set (env_flag f) = False"
  "clock (env_flag f) k = ''T''"
  by (simp_all add: env_flag_def env_probe_def)

lemma Run_stopped_after_first:
  "map provider_id (providers (fst (Run (env_flag (\<lambda>k. 0 < k)) Map.empty fresh_state)))
     = [''openrouter'']"
proof -
  let ?e = "env_flag (\<lambda>k. 0 < k)"
  let ?s1 = "snd (snd (start_run ?e fresh_state))"
  let ?s2 = "push_log ?e ''Starting full provider audit'' ?s1"
  let ?p = "start_audit ''openrouter'' ''OpenRouter'' []\<lparr>notes := ''No API key supplied.''\<rparr>"
  have flag: "cancel_requested ?e k = (0 < k)" for k
    by (simp add: env_flag_def env_probe_def)
  have stays: "flag_stays ?e"
    by (auto simp: flag_stays_def env_flag_def env_probe_def)
  have l1: "loads ?s1 = 1"
    by (simp add: start_run_def NowUtc_def load_cancel_def fresh_state_def case_prod_beta)
  have first: "launch_openrouter ?e Map.empty ?s2 = (?p, ?s2)"
    by (simp add: launch_openrouter_def key_of_def)
  have "fst (fold (unless_canceled ?e) (later_launches ?e Map.empty) ([?p], ?s2)) = fst ([?p], ?s2)"
    by (rule fold_unless_canceled_stopped [OF stays, of 1]) (simp_all add: flag l1)
  then have "fst (all_launched ?e Map.empty ?s1) = [?p]"
    by (simp add: all_launched_def first)
  moreover have "\<not> cancel_requested ?e (loads fresh_state)"
    by (simp add: flag fresh_state_def)
  ultimately show ?thesis
    by (simp add: Run_providers)
qed

text \<open>
  Two runs of the orchestrator of the specification.  Without keys and with the flag
  set from its third load on, two providers are launched.  With a key for the first
  provider and the flag set from its second load on, the first provider sends its list
  request, finds the flag set before its first model check and returns; no other
  provider is launched.
\<close>

lemma spec_launches_two:
  "map provider_id (fst (spec_launches (env_flag (\<lambda>k. 1 < k)) (launches (env_flag (\<lambda>k. 1 < k)) Map.empty)
      (snd (NowUtc (env_flag (\<lambda>k. 1 < k)) (fresh_state\<lparr>report_logs := []\<rparr>)))))
   = [''openrouter'', ''google_ai_studio'']"
  by (simp add: launches_def later_launches_def launch_openrouter_def key_of_def load_cancel_def
        NowUtc_def fresh_state_def flag_env start_audit_def)

lemma spec_launches_inside_first:
  "map provider_id (fst (spec_launches (env_flag (\<lambda>k. 0 < k))
      (launches (env_flag (\<lambda>k. 0 < k)) [''openrouter'' \<mapsto> ''sk''])
      (snd (NowUtc (env_flag (\<lambda>k. 0 < k)) (fresh_state\<lparr>report_logs := []\<rparr>)))))
   = [''openrouter'']"
  "sent (snd (spec_launches (env_flag (\<lambda>k. 0 < k))
      (launches (env_flag (\<lambda>k. 0 < k)) [''openrouter'' \<mapsto> ''sk''])
      (snd (NowUtc (env_flag (\<lambda>k. 0 < k)) (fresh_state\<lparr>report_logs := []\<rparr>)))))
   = [(''GET'', ''https://openrouter.ai/api/v1/models'')]"
proof -
  let ?e = "env_flag (\<lambda>k. 0 < k)"
  have d: "ExtractModelIds (ParseJson (parse ?e) ''L'') = [''m1'', ''m2'']"
    by (simp add: env_flag_def env_probe_def ParseJson_def probe_facts)
  have tc: "TopCandidates [''m1'', ''m2'']
      [''openai/gpt-4.1'', ''openai/gpt-4o'', ''anthropic/claude-3.7-sonnet'', ''google/gemini-2.5-pro''] 8
      = [''m1'', ''m2'']"
    by code_simp
  have body: "resp_body (sender ?e 0) = ''L''"
    by (simp add: env_flag_def env_probe_def)
  show "map provider_id (fst (spec_launches ?e (launches ?e [''openrouter'' \<mapsto> ''sk''])
          (snd (NowUtc ?e (fresh_state\<lparr>report_logs := []\<rparr>))))) = [''openrouter'']"
    by (simp add: Let_def launches_def later_launches_def launch_openrouter_def key_of_def load_cancel_def
        NowUtc_def fresh_state_def flag_env AuditOpenAICompatible_def Request_def push_log_def
        checks_and_prompts_def d tc body)
  show "sent (snd (spec_launches ?e (launches ?e [''openrouter'' \<mapsto> ''sk''])
          (snd (NowUtc ?e (fresh_state\<lparr>report_logs := []\<rparr>)))))
        = [(''GET'', ''https://openrouter.ai/api/v1/models'')]"
    by (simp add: Let_def launches_def later_launches_def launch_openrouter_def key_of_def load_cancel_def
        NowUtc_def fresh_state_def flag_env AuditOpenAICompatible_def Request_def push_log_def
        checks_and_prompts_def d tc body)
qed

theorem Run_cancellation_witness:
  "providers (fst (Run (env_flag (\<lambda>k. True)) Map.empty fresh_state)) = [] \<and>
   run_logs (fst (Run (env_flag (\<lambda>k. True)) Map.empty fresh_state)) =
     [''[T] Audit canceled before start.''] \<and>
   map provider_id (providers (fst (Run (env_flag (\<lambda>k. False)) Map.empty fresh_state))) = roster \<and>
   map provider_id (providers (fst (Run (env_flag (\<lambda>k. 0 < k)) Map.empty fresh_state)))
     = [''openrouter''] \<and>
   prefix [''openrouter''] roster \<and>
   map provider_id (providers (fst (Run (env_flag (\<lambda>k. 1 < k)) Map.empty fresh_state)))
     = [''openrouter'', ''google_ai_studio''] \<and>
   map provider_id (providers (fst (Run (env_flag (\<lambda>k. 0 < k)) [''openrouter'' \<mapsto> ''sk''] fresh_state)))
     = [''openrouter''] \<and>
   sent (snd (Run (env_flag (\<lambda>k. 0 < k)) [''openrouter'' \<mapsto> ''sk''] fresh_state))
     = [(''GET'', ''https://openrouter.ai/api/v1/models'')]"
proof -
  have set: "cancel_requested (env_flag (\<lambda>k. True)) (loads fresh_state)"
    by (simp add: env_flag_def env_probe_def)
  have never: "\<forall>k. \<not> cancel_requested (env_flag (\<lambda>k. False)) k"
    by (simp add: env_flag_def env_probe_def)
  have stays: "flag_stays (env_flag (\<lambda>k. 0 < k))"
    by (simp add: flag_stays_def env_flag_def env_probe_def)
  have stays2: "flag_stays (env_flag (\<lambda>k. 1 < k))"
    by (simp add: flag_stays_def env_flag_def env_probe_def)
  have clock: "clock (env_flag (\<lambda>k. True)) (Suc (ticks fresh_state)) = ''T''"
    by (simp add: env_flag_def env_probe_def)
  from Run_cancellation [of "env_flag (\<lambda>k. True)" fresh_state Map.empty] set clock
  have a: "providers (fst (Run (env_flag (\<lambda>k. True)) Map.empty fresh_state)) = [] \<and>
     run_logs (fst (Run (env_flag (\<lambda>k. True)) Map.empty fresh_state)) =
       [''[T] Audit canceled before start.'']"
    by simp
  from Run_cancellation [of "env_flag (\<lambda>k. False)" fresh_state Map.empty] never
  have b: "map provider_id (providers (fst (Run (env_flag (\<lambda>k. False)) Map.empty fresh_state))) = roster"
    by blast
  from Run_cancellation [of "env_flag (\<lambda>k. 0 < k)" fresh_state Map.empty] stays
  have "prefix (map provider_id (providers (fst (Run (env_flag (\<lambda>k. 0 < k)) Map.empty fresh_state)))) roster"
    by blast
  then have c: "prefix [''openrouter''] roster"
    by (simp only: Run_stopped_after_first)
  from Run_cancellation [of "env_flag (\<lambda>k. 1 < k)" fresh_state Map.empty] stays2
  have "providers (fst (Run (env_flag (\<lambda>k. 1 < k)) Map.empty fresh_state)) =
          fst (spec_launches (env_flag (\<lambda>k. 1 < k)) (launches (env_flag (\<lambda>k. 1 < k)) Map.empty)
            (snd (NowUtc (env_flag (\<lambda>k. 1 < k)) (fresh_state\<lparr>report_logs := []\<rparr>))))"
    by blast
  then have d: "map provider_id (providers (fst (Run (env_flag (\<lambda>k. 1 < k)) Map.empty fresh_state)))
                  = [''openrouter'', ''google_ai_studio'']"
    by (simp only: spec_launches_two)
  from Run_cancellation [of "env_flag (\<lambda>k. 0 < k)" fresh_state "[''openrouter'' \<mapsto> ''sk'']"] stays
  have "providers (fst (Run (env_flag (\<lambda>k. 0 < k)) [''openrouter'' \<mapsto> ''sk''] fresh_state)) =
          fst (spec_launches (env_flag (\<lambda>k. 0 < k))
            (launches (env_flag (\<lambda>k. 0 < k)) [''openrouter'' \<mapsto> ''sk''])
            (snd (NowUtc (env_flag (\<lambda>k. 0 < k)) (fresh_state\<lparr>report_logs := []\<rparr>))))"
    and "sent (snd (Run (env_flag (\<lambda>k. 0 < k)) [''openrouter'' \<mapsto> ''sk''] fresh_state)) =
          sent (snd (spec_launches (env_flag (\<lambda>k. 0 < k))
            (launches (env_flag (\<lambda>k. 0 < k)) [''openrouter'' \<mapsto> ''sk''])
            (snd (NowUtc (env_flag (\<lambda>k. 0 < k)) (fresh_state\<lparr>report_logs := []\<rparr>)))))"
    by blast+
  then have f: "map provider_id (providers (fst (Run (env_flag (\<lambda>k. 0 < k)) [''openrouter'' \<mapsto> ''sk''] fresh_state)))
                  = [''openrouter'']"
    and g: "sent (snd (Run (env_flag (\<lambda>k. 0 < k)) [''openrouter'' \<mapsto> ''sk''] fresh_state))
              = [(''GET'', ''https://openrouter.ai/api/v1/models'')]"
    by (simp_all only: spec_launches_inside_first)
  from a b c d f g Run_stopped_after_first show ?thesis by (intro conjI) simp_all
qed

subsection \<open>Request accounting of a whole run\<close>

text \<open>
  Claim C1.  \<^verbatim>\<open>AddTrace\<close> appends exactly one trace and adds one to \<^verbatim>\<open>total_requests\<close>;
  it adds one to \<^verbatim>\<open>successful_requests\<close> if the status is in [200, 300) and the error
  string is empty, and one to \<^verbatim>\<open>failed_requests\<close> otherwise.  A fresh \<^verbatim>\<open>ProviderAudit\<close>
  is counted, \<^verbatim>\<open>AddTrace\<close> keeps a provider counted, and a counted provider has
  \<open>total_requests = successful_requests + failed_requests\<close>.  Every provider in the
  report of a run is counted, and the requests the run sent are exactly the requests of
  the traces of its providers: every Sender call left one trace.
\<close>

theorem AddTrace_keeps_counters:
  "request_traces (AddTrace p step method url r) = request_traces p @ [trace_of step method url r] \<and>
   total_requests (AddTrace p step method url r) = total_requests p + 1 \<and>
   successful_requests (AddTrace p step method url r) =
     successful_requests p + (if resp_ok r then 1 else 0) \<and>
   failed_requests (AddTrace p step method url r) =
     failed_requests p + (if resp_ok r then 0 else 1) \<and>
   counted new_ProviderAudit \<and>
   (counted p \<longrightarrow> counted (AddTrace p step method url r)) \<and>
   (counted p \<longrightarrow> total_requests p = successful_requests p + failed_requests p) \<and>
   (\<forall>q \<in> set (providers (fst (Run e keys s))).
       counted q \<and> total_requests q = successful_requests q + failed_requests q) \<and>
   sent (snd (Run e keys s)) =
     sent s @ concat (map (\<lambda>q. map request_of (request_traces q)) (providers (fst (Run e keys s))))"
proof -
  from Run_reported [of s e keys]
  have "\<forall>q \<in> set (providers (fst (Run e keys s))). counted q"
    and "sent (snd (Run e keys s)) =
     sent s @ concat (map (\<lambda>q. map request_of (request_traces q)) (providers (fst (Run e keys s))))"
    by (simp_all add: reported_def list_all_iff)
  then show ?thesis
    by (simp add: AddTrace_traces AddTrace_total AddTrace_successful AddTrace_failed
          counted_AddTrace counted_sum)
qed

theorem AddTrace_keeps_counters_witness:
  "(let p = AddTrace new_ProviderAudit ''list_models'' ''GET'' ''u'' (sender (env_flag (\<lambda>k. False)) 0)
    in counted p \<and> total_requests p = 1 \<and> successful_requests p = 1 \<and> failed_requests p = 0) \<and>
   (let p = AddTrace new_ProviderAudit ''list_models'' ''GET'' ''u'' (sender (env_flag (\<lambda>k. False)) 1)
    in counted p \<and> total_requests p = 1 \<and> successful_requests p = 0 \<and> failed_requests p = 1) \<and>
   (let q = hd (providers (fst (Run (env_flag (\<lambda>k. False)) Map.empty fresh_state)))
    in provider_id q = ''openrouter'' \<and> counted q \<and>
       total_requests q = successful_requests q + failed_requests q)"
proof -
  let ?e = "env_flag (\<lambda>k. False)"
  let ?ps = "providers (fst (Run ?e Map.empty fresh_state))"
  have ok: "resp_ok (sender ?e 0)" "\<not> resp_ok (sender ?e 1)"
    by (simp_all add: resp_ok_def env_flag_def env_probe_def)
  have new: "total_requests new_ProviderAudit = 0" "successful_requests new_ProviderAudit = 0"
    "failed_requests new_ProviderAudit = 0"
    by (simp_all add: new_ProviderAudit_def)
  have "\<forall>k. \<not> cancel_requested ?e k"
    by (simp add: env_flag_def env_probe_def)
  then have ids: "map provider_id ?ps = roster"
    by (simp add: Run_providers all_launched_all)
  then obtain q qs where ps: "?ps = q # qs" and "provider_id q = ''openrouter''"
    by (cases ?ps) (auto simp: roster_def)
  then have first: "provider_id (hd ?ps) = ''openrouter''" and mem: "hd ?ps \<in> set ?ps"
    by simp_all
  note t0 = AddTrace_keeps_counters [of new_ProviderAudit "''list_models''" "''GET''" "''u''"
      "sender ?e 0" ?e Map.empty fresh_state]
  note t1 = AddTrace_keeps_counters [of new_ProviderAudit "''list_models''" "''GET''" "''u''"
      "sender ?e 1" ?e Map.empty fresh_state]
  from t0 ok(1) new
  have a: "let p = AddTrace new_ProviderAudit ''list_models'' ''GET'' ''u'' (sender ?e 0)
    in counted p \<and> total_requests p = 1 \<and> successful_requests p = 1 \<and> failed_requests p = 0"
    unfolding Let_def by simp
  from t1 ok(2) new
  have b: "let p = AddTrace new_ProviderAudit ''list_models'' ''GET'' ''u'' (sender ?e 1)
    in counted p \<and> total_requests p = 1 \<and> successful_requests p = 0 \<and> failed_requests p = 1"
    unfolding Let_def by simp
  from t0 mem first
  have c: "let q = hd ?ps
    in provider_id q = ''openrouter'' \<and> counted q \<and>
       total_requests q = successful_requests q + failed_requests q"
    unfolding Let_def by blast
  from a b c show ?thesis by (intro conjI)
qed

section \<open>The scorer\<close>

lemma get_answer_answer_to: "get_answer tests name = answer_to tests name"
  by (induction tests) (simp_all add: answer_to_def)

lemma scored_ScoreProvider: "scored (ScoreProvider p)"
  by (simp add: scored_def ScoreProvider_def Let_def get_answer_answer_to found_iff_sublist
        reasoning_points_def coding_points_def axui_points_def)

lemma prompt_tests_ScoreProvider [simp]: "prompt_tests (ScoreProvider p) = prompt_tests p"
  by (simp add: ScoreProvider_def Let_def)

lemma marks_simps [simp]:
  "marks (AddTrace p step method url r) = marks p"
  "marks (FinalizeMetrics p) = marks p"
  "marks (p\<lparr>notes := n\<rparr>) = marks p"
  "marks (p\<lparr>raw_payload := rp\<rparr>) = marks p"
  "marks (p\<lparr>model_checks := mcs\<rparr>) = marks p"
  "marks (p\<lparr>working_models := ws\<rparr>) = marks p"
  "marks (p\<lparr>failing_models := fs\<rparr>) = marks p"
  "marks (record_discovery p d j) = marks p"
  "marks (record_list_response p url r) = marks p"
  "marks (record_auth_response p url r) = marks p"
  "marks (choose_model_used pool preferred p) = marks p"
  by (simp_all add: marks_def AddTrace_def FinalizeMetrics_def Let_def record_discovery_def
        record_list_response_def record_auth_response_def choose_model_used_def)

lemma marks_canceled_note [simp]: "marks (canceled_note p) = marks p"
  by (simp add: canceled_note_def)

lemma marks_start_audit [simp]: "marks (start_audit pid pname key) = ([], 0, 0, 0, 0)"
  by (simp add: marks_def start_audit_def new_ProviderAudit_def)

lemma ModelChecks_marks:
  "ModelChecks e extract url_of cands p s = (r, s') \<Longrightarrow> marks (done_audit r) = marks p"
proof (induction cands arbitrary: p s)
  case Nil
  then show ?case by (auto simp: done_audit_def)
next
  case (Cons model rest)
  show ?case
  proof (cases "cancel_requested e (loads s)")
    case True
    with Cons.prems have "r = Inl (canceled_note p)"
      by (auto simp: load_cancel_def)
    then show ?thesis by (simp add: done_audit_def)
  next
    case False
    with Cons.prems obtain p2 s2 where
      run: "ModelChecks e extract url_of rest p2 s2 = (r, s')" and m: "marks p2 = marks p"
      by (auto simp: load_cancel_def Request_def Let_def split: if_splits)
    from Cons.IH [OF run] m show ?thesis by simp
  qed
qed

lemma PromptSuite_marks:
  assumes "PromptSuite e extract url tag log prompts p s = (r, s')"
  shows "\<exists>n \<le> length prompts.
           map pt_name (prompt_tests (done_audit r)) = map pt_name (prompt_tests p) @ take n prompts \<and>
           snd (marks (done_audit r)) = snd (marks p) \<and>
           ((\<exists>q. r = Inr q) \<longleftrightarrow> n = length prompts)"
  using assms
proof (induction prompts arbitrary: p s)
  case Nil
  then show ?case by (auto simp: done_audit_def)
next
  case (Cons prompt rest)
  show ?case
  proof (cases "cancel_requested e (loads s)")
    case True
    with Cons.prems have "r = Inl (canceled_note p)"
      by (auto simp: load_cancel_def)
    moreover have "prompt_tests (canceled_note p) = prompt_tests p"
      using marks_canceled_note [of p] by (simp add: marks_def del: marks_canceled_note)
    ultimately show ?thesis
      by (intro exI [of _ 0]) (simp add: done_audit_def)
  next
    case False
    with Cons.prems obtain p2 s2 where
      run: "PromptSuite e extract url tag log rest p2 s2 = (r, s')"
      and names: "map pt_name (prompt_tests p2) = map pt_name (prompt_tests p) @ [prompt]"
      and m: "snd (marks p2) = snd (marks p)"
      by (auto simp: load_cancel_def Request_def Let_def marks_def AddTrace_def)
    from Cons.IH [OF run] obtain n where n: "n \<le> length rest"
      and a: "map pt_name (prompt_tests (done_audit r)) = map pt_name (prompt_tests p2) @ take n rest"
      and b: "snd (marks (done_audit r)) = snd (marks p2)"
      and c: "(\<exists>q. r = Inr q) \<longleftrightarrow> n = length rest"
      by blast
    from n a b c names m show ?thesis
      by (intro exI [of _ "Suc n"]) simp
  qed
qed

lemma take_proper: "n < length xs \<Longrightarrow> take n xs \<noteq> xs"
  by (metis length_take min.absorb2 less_imp_le_nat nat_neq_iff)

lemma graded_none: "marks q = ([], 0, 0, 0, 0) \<Longrightarrow> graded q"
  by (auto simp: graded_def marks_def unscored_def kPromptSuite_def intro: exI [of _ 0])

lemma checks_and_prompts_graded:
  assumes "marks p = ([], 0, 0, 0, 0)"
  shows "graded (fst (checks_and_prompts e extract url_of tag log pool preferred p s))"
proof -
  let ?cands = "TopCandidates pool preferred 8"
  obtain r1 s1 where mc: "ModelChecks e extract url_of ?cands p s = (r1, s1)"
    by (cases "ModelChecks e extract url_of ?cands p s")
  from ModelChecks_marks [OF mc] assms have m1: "marks (done_audit r1) = ([], 0, 0, 0, 0)"
    by simp
  show ?thesis
  proof (cases r1)
    case (Inl p1)
    with mc m1 show ?thesis
      by (simp add: checks_and_prompts_def done_audit_def graded_none)
  next
    case (Inr p1)
    let ?p2 = "choose_model_used pool preferred p1"
    from Inr m1 have m2: "marks ?p2 = ([], 0, 0, 0, 0)"
      by (simp add: done_audit_def)
    obtain r2 s2 where ps:
      "PromptSuite e extract (url_of (model_used ?p2)) tag log kPromptSuite ?p2 s1 = (r2, s2)"
      by (cases "PromptSuite e extract (url_of (model_used ?p2)) tag log kPromptSuite ?p2 s1")
    from PromptSuite_marks [OF ps] m2 obtain n where n: "n \<le> length kPromptSuite"
      and names: "map pt_name (prompt_tests (done_audit r2)) = take n kPromptSuite"
      and scores: "snd (marks (done_audit r2)) = (0, 0, 0, 0)"
      and full: "(\<exists>q. r2 = Inr q) \<longleftrightarrow> n = length kPromptSuite"
      by (auto simp: marks_def)
    show ?thesis
    proof (cases r2)
      case (Inl p3)
      with full n have less: "n < length kPromptSuite" by auto
      from Inl mc Inr ps have q: "fst (checks_and_prompts e extract url_of tag log pool preferred p s) = p3"
        by (simp add: checks_and_prompts_def Let_def)
      from Inl names scores less take_proper [OF less] show ?thesis
        unfolding q graded_def by (auto simp: done_audit_def unscored_def marks_def)
    next
      case r2: (Inr p3)
      with full have "n = length kPromptSuite" by auto
      with names r2 have nm: "map pt_name (prompt_tests p3) = kPromptSuite"
        by (simp add: done_audit_def)
      from r2 mc Inr ps
      have q: "fst (checks_and_prompts e extract url_of tag log pool preferred p s) =
                 FinalizeMetrics (ScoreProvider p3)"
        by (simp add: checks_and_prompts_def Let_def)
      have "marks (FinalizeMetrics (ScoreProvider p3)) = marks (ScoreProvider p3)"
        by simp
      then have "scored (FinalizeMetrics (ScoreProvider p3))"
        and "prompt_tests (FinalizeMetrics (ScoreProvider p3)) = prompt_tests p3"
        using scored_ScoreProvider [of p3]
        by (simp_all add: marks_def scored_def del: marks_simps)
      with nm show ?thesis
        unfolding q graded_def by simp
    qed
  qed
qed

lemma graded_simps [simp]:
  "marks p = ([], 0, 0, 0, 0) \<Longrightarrow> graded (fst (checks_and_prompts e ex url_of tag log pool preferred p s))"
  "graded (start_audit pid pname key\<lparr>notes := n\<rparr>)"
  "marks p = ([], 0, 0, 0, 0) \<Longrightarrow> graded (FinalizeMetrics (p\<lparr>notes := n\<rparr>))"
  by (simp_all add: checks_and_prompts_graded graded_none)

lemma AuditOpenAICompatible_graded:
  "graded (fst (AuditOpenAICompatible e pid pname key list_url chat_url preferred log s))"
  by (simp add: AuditOpenAICompatible_def Let_def case_prod_beta)

lemma AuditGoogle_graded: "graded (fst (AuditGoogle e key log s))"
  by (simp add: AuditGoogle_def Let_def case_prod_beta)

lemma AuditCohere_graded: "graded (fst (AuditCohere e key log s))"
  by (simp add: AuditCohere_def Let_def case_prod_beta)

lemma AuditVercel_graded: "graded (fst (AuditVercel e key log s))"
  by (simp add: AuditVercel_def Let_def case_prod_beta)

lemma AuditGitHubToken_graded: "graded (fst (AuditGitHubToken e pid pname token log s))"
  by (simp add: AuditGitHubToken_def Let_def case_prod_beta)

lemma unless_canceled_graded:
  "\<forall>s. graded (fst (l s)) \<Longrightarrow> list_all graded (fst st) \<Longrightarrow>
   list_all graded (fst (unless_canceled e l st))"
  by (simp add: unless_canceled_cases)

lemma fold_unless_canceled_graded:
  "list_all (\<lambda>l. \<forall>s. graded (fst (l s))) ls \<Longrightarrow> list_all graded (fst st) \<Longrightarrow>
   list_all graded (fst (fold (unless_canceled e) ls st))"
  by (induction ls arbitrary: st) (simp_all add: unless_canceled_graded)

lemma later_launches_graded: "list_all (\<lambda>l. \<forall>s. graded (fst (l s))) (later_launches e keys)"
  by (simp add: later_launches_def launch_mistral_def launch_groq_def launch_ai21_def
        AuditOpenAICompatible_graded AuditGoogle_graded AuditCohere_graded AuditVercel_graded
        AuditGitHubToken_graded)

lemma Run_graded: "list_all graded (providers (fst (Run e keys s)))"
proof (cases "cancel_requested e (loads s)")
  case True
  then show ?thesis by (simp add: Run_providers)
next
  case False
  let ?s1 = "snd (snd (start_run e s))"
  let ?l = "launch_openrouter e keys (push_log e ''Starting full provider audit'' ?s1)"
  have "list_all graded (fst ([fst ?l], snd ?l))"
    by (simp add: launch_openrouter_def AuditOpenAICompatible_graded)
  from fold_unless_canceled_graded [OF later_launches_graded this] False show ?thesis
    by (simp add: Run_providers all_launched_def case_prod_beta)
qed

text \<open>Evaluation of two runs of an adapter in the environment \<open>env_answers\<close>.\<close>

lemma marks_prompt_tests [simp]: "marks (p\<lparr>prompt_tests := ts\<rparr>) = (ts, snd (marks p))"
  by (simp add: marks_def)

lemma prompt_tests_marks: "prompt_tests p = fst (marks p)"
  by (simp add: marks_def)

lemma answers_facts:
  "ExtractModelIds (JObject [(''data'', JArray [JString ''m1''])]) = [''m1'']"
  "TopCandidates [''m1''] [] 8 = [''m1'']"
  "ExtractOpenAIText (answer_body a) = a"
  by (code_simp, code_simp, simp add: ExtractOpenAIText_def answer_body_def field_def)

lemma answers_env:
  "cancel_requested (env_answers flag a) k = flag k"
  "ParseJson (parse (env_answers flag a)) ''L'' = JObject [(''data'', JArray [JString ''m1''])]"
  "ParseJson (parse (env_answers flag a)) ''C'' = answer_body a"
  "resp_body (sender (env_answers flag a) 0) = ''L''"
  "sender (env_answers flag a) (Suc k) =
     \<lparr> resp_status = 200, resp_latency_ms = 7, resp_body = ''C'', resp_headers = [], resp_error = [] \<rparr>"
  by (simp_all add: env_answers_def ParseJson_def)

lemma stopped_in_suite:
  "marks (fst (AuditOpenAICompatible (env_answers (\<lambda>k. 1 < k) ''Five minutes.'') ''p'' ''P'' ''sk'' ''lu'' ''cu'' []
        (push_log (env_answers (\<lambda>k. 1 < k) ''Five minutes.'')) fresh_state)) =
     ([\<lparr> pt_name = ''reasoning'', pt_status = 200, pt_latency_ms = 7, pt_rate_limit_headers = [],
         pt_answer = ''Five minutes.'', pt_error_snippet = [] \<rparr>], 0, 0, 0, 0)"
  by (simp add: AuditOpenAICompatible_def checks_and_prompts_def Let_def kPromptSuite_def
        Request_def load_cancel_def push_log_def NowUtc_def fresh_state_def answers_env answers_facts
        Snippet_def kSnippetLen_def RateLimitHeaders_def prompt_tests_marks)

lemma fst_marks_ScoreProvider [simp]: "fst (marks (ScoreProvider p)) = fst (marks p)"
  by (simp add: marks_def)

lemma full_suite:
  "prompt_tests (fst (AuditOpenAICompatible (env_answers (\<lambda>k. False) a) ''p'' ''P'' ''sk'' ''lu'' ''cu'' []
        (push_log (env_answers (\<lambda>k. False) a)) fresh_state)) =
     [\<lparr> pt_name = ''reasoning'', pt_status = 200, pt_latency_ms = 7, pt_rate_limit_headers = [],
         pt_answer = Snippet a 1400, pt_error_snippet = [] \<rparr>,
      \<lparr> pt_name = ''coding'', pt_status = 200, pt_latency_ms = 7, pt_rate_limit_headers = [],
         pt_answer = Snippet a 1400, pt_error_snippet = [] \<rparr>,
      \<lparr> pt_name = ''axui'', pt_status = 200, pt_latency_ms = 7, pt_rate_limit_headers = [],
         pt_answer = Snippet a 1400, pt_error_snippet = [] \<rparr>]"
proof (cases "a = []")
  case True
  then show ?thesis
  by (simp add: AuditOpenAICompatible_def checks_and_prompts_def Let_def kPromptSuite_def
        Request_def load_cancel_def push_log_def NowUtc_def fresh_state_def answers_env answers_facts
        Snippet_def kSnippetLen_def RateLimitHeaders_def prompt_tests_marks)
next
  case False
  then show ?thesis
  by (simp add: AuditOpenAICompatible_def checks_and_prompts_def Let_def kPromptSuite_def
        Request_def load_cancel_def push_log_def NowUtc_def fresh_state_def answers_env answers_facts
        Snippet_def kSnippetLen_def RateLimitHeaders_def prompt_tests_marks)
qed

lemma sample_points:
  "reasoning_points (ToLower ''Five minutes; s[::-1]; CLOSE_POPUP'') = 1"
  "coding_points (ToLower ''Five minutes; s[::-1]; CLOSE_POPUP'') = 1"
  "axui_points (ToLower ''Five minutes; s[::-1]; CLOSE_POPUP'') = 1"
  "Snippet ''Five minutes; s[::-1]; CLOSE_POPUP'' 1400 = ''Five minutes; s[::-1]; CLOSE_POPUP''"
  "reasoning_points (ToLower ''Five minutes.'') = 1"
  by code_simp+

text \<open>
  Claim C6, as the code has it.  \<^verbatim>\<open>ScoreProvider\<close> looks the answers up by prompt name
  and lower-cases them.  It sets \<^verbatim>\<open>score_reasoning\<close> to 1 exactly if the reasoning
  answer contains \<open>5 minute\<close>, equals \<open>5\<close> or contains \<open>five minutes\<close>, and else to 0;
  \<^verbatim>\<open>score_coding\<close> to 1 exactly if the coding answer contains \<open>[::-1]\<close> or \<open>reversed(\<close>,
  and else to 0; \<^verbatim>\<open>score_axui\<close> to 2 if the axui answer contains both \<open>close_popup\<close> and
  \<open>btn_continue\<close>, to 1 if it contains exactly one of them, else to 0; and
  \<^verbatim>\<open>score_total\<close> to the sum of the three.  Each of the five adapters, and so every
  provider in the report of \<^verbatim>\<open>Run\<close>, applies it to a provider whose prompt suite ran to
  its end, after the suite, so that the scores are those of the answers the provider
  holds; a provider whose adapter returned before the end of the suite holds the tests
  of the prompts asked until then and is not scored.
\<close>

theorem ScoreProvider_rubric:
  "(let reasoning = answer_to (prompt_tests p) ''reasoning'';
        coding = answer_to (prompt_tests p) ''coding'';
        axui = answer_to (prompt_tests p) ''axui'';
        q = ScoreProvider p
    in (score_reasoning q = 1 \<longleftrightarrow>
          sublist ''5 minute'' reasoning \<or> reasoning = ''5'' \<or> sublist ''five minutes'' reasoning) \<and>
       score_reasoning q \<in> {0, 1} \<and>
       (score_coding q = 1 \<longleftrightarrow> sublist ''[::-1]'' coding \<or> sublist ''reversed('' coding) \<and>
       score_coding q \<in> {0, 1} \<and>
       score_axui q =
         (if sublist ''close_popup'' axui \<and> sublist ''btn_continue'' axui then 2
          else if sublist ''close_popup'' axui \<noteq> sublist ''btn_continue'' axui then 1
          else 0) \<and>
       score_total q = score_reasoning q + score_coding q + score_axui q \<and>
       prompt_tests q = prompt_tests p \<and> scored q) \<and>
   graded (fst (AuditOpenAICompatible e pid pname key list_url chat_url preferred_models log s)) \<and>
   graded (fst (AuditGoogle e key log s)) \<and>
   graded (fst (AuditCohere e key log s)) \<and>
   graded (fst (AuditVercel e key log s)) \<and>
   graded (fst (AuditGitHubToken e pid pname key log s)) \<and>
   list_all graded (providers (fst (Run e keys s)))"
proof -
  let ?q = "ScoreProvider p"
  let ?r = "answer_to (prompt_tests p) ''reasoning''"
  let ?c = "answer_to (prompt_tests p) ''coding''"
  let ?a = "answer_to (prompt_tests p) ''axui''"
  have sc: "scored ?q" and ts: "prompt_tests ?q = prompt_tests p"
    by (simp_all add: scored_ScoreProvider)
  from sc ts have r: "score_reasoning ?q = reasoning_points ?r"
    and c: "score_coding ?q = coding_points ?c"
    and a: "score_axui ?q = axui_points ?a"
    and t: "score_total ?q = score_reasoning ?q + score_coding ?q + score_axui ?q"
    by (simp_all add: scored_def)
  have r1: "score_reasoning ?q = 1 \<longleftrightarrow>
              sublist ''5 minute'' ?r \<or> ?r = ''5'' \<or> sublist ''five minutes'' ?r"
    unfolding r by (simp add: reasoning_points_def)
  have r2: "score_reasoning ?q \<in> {0, 1}"
    unfolding r by (simp add: reasoning_points_def)
  have c1: "score_coding ?q = 1 \<longleftrightarrow> sublist ''[::-1]'' ?c \<or> sublist ''reversed('' ?c"
    unfolding c by (simp add: coding_points_def)
  have c2: "score_coding ?q \<in> {0, 1}"
    unfolding c by (simp add: coding_points_def)
  have a1: "score_axui ?q =
         (if sublist ''close_popup'' ?a \<and> sublist ''btn_continue'' ?a then 2
          else if sublist ''close_popup'' ?a \<noteq> sublist ''btn_continue'' ?a then 1
          else 0)"
    unfolding a by (auto simp: axui_points_def)
  have scorer: "let reasoning = ?r; coding = ?c; axui = ?a; q = ?q
    in (score_reasoning q = 1 \<longleftrightarrow>
          sublist ''5 minute'' reasoning \<or> reasoning = ''5'' \<or> sublist ''five minutes'' reasoning) \<and>
       score_reasoning q \<in> {0, 1} \<and>
       (score_coding q = 1 \<longleftrightarrow> sublist ''[::-1]'' coding \<or> sublist ''reversed('' coding) \<and>
       score_coding q \<in> {0, 1} \<and>
       score_axui q =
         (if sublist ''close_popup'' axui \<and> sublist ''btn_continue'' axui then 2
          else if sublist ''close_popup'' axui \<noteq> sublist ''btn_continue'' axui then 1
          else 0) \<and>
       score_total q = score_reasoning q + score_coding q + score_axui q \<and>
       prompt_tests q = prompt_tests p \<and> scored q"
    unfolding Let_def using r1 r2 c1 c2 a1 t ts sc by (intro conjI)
  from scorer AuditOpenAICompatible_graded AuditGoogle_graded AuditCohere_graded AuditVercel_graded
    AuditGitHubToken_graded Run_graded
  show ?thesis by (intro conjI)
qed

theorem ScoreProvider_rubric_witness:
  "(let q = ScoreProvider (new_ProviderAudit\<lparr>prompt_tests :=
              [test_with_answer ''reasoning'' ''About FIVE MINUTES.'',
               test_with_answer ''coding'' ''return s == s[::-1]'',
               test_with_answer ''axui'' ''Click BTN_CONTINUE after Close_Popup'']\<rparr>)
    in score_reasoning q = 1 \<and> score_coding q = 1 \<and> score_axui q = 2 \<and> score_total q = 4) \<and>
   (let e = env_answers (\<lambda>k. False) ''Five minutes; s[::-1]; CLOSE_POPUP'';
        q = fst (AuditOpenAICompatible e ''p'' ''P'' ''sk'' ''lu'' ''cu'' [] (push_log e) fresh_state)
    in map pt_name (prompt_tests q) = kPromptSuite \<and>
       score_reasoning q = 1 \<and> score_coding q = 1 \<and> score_axui q = 1 \<and> score_total q = 3)"
proof -
  let ?ts = "[test_with_answer ''reasoning'' ''About FIVE MINUTES.'',
              test_with_answer ''coding'' ''return s == s[::-1]'',
              test_with_answer ''axui'' ''Click BTN_CONTINUE after Close_Popup'']"
  let ?p = "new_ProviderAudit\<lparr>prompt_tests := ?ts\<rparr>"
  let ?e = "env_answers (\<lambda>k. False) ''Five minutes; s[::-1]; CLOSE_POPUP''"
  let ?q = "fst (AuditOpenAICompatible ?e ''p'' ''P'' ''sk'' ''lu'' ''cu'' [] (push_log ?e) fresh_state)"
  note inst = ScoreProvider_rubric [where p = ?p and e = ?e and pid = "''p''" and pname = "''P''"
                 and key = "''sk''" and list_url = "''lu''" and chat_url = "''cu''"
                 and preferred_models = "[]" and log = "push_log ?e" and s = fresh_state]
  have tests: "prompt_tests ?p = ?ts"
    by simp
  have r: "sublist ''five minutes'' (answer_to ?ts ''reasoning'')"
    and c: "sublist ''[::-1]'' (answer_to ?ts ''coding'')"
    and a: "sublist ''close_popup'' (answer_to ?ts ''axui'')"
           "sublist ''btn_continue'' (answer_to ?ts ''axui'')"
    unfolding found_iff_sublist [symmetric] by code_simp+
  from inst r c a have first:
    "let q = ScoreProvider ?p
     in score_reasoning q = 1 \<and> score_coding q = 1 \<and> score_axui q = 2 \<and> score_total q = 4"
    unfolding tests Let_def by simp
  have suite: "prompt_tests ?q =
     [\<lparr> pt_name = ''reasoning'', pt_status = 200, pt_latency_ms = 7, pt_rate_limit_headers = [],
         pt_answer = ''Five minutes; s[::-1]; CLOSE_POPUP'', pt_error_snippet = [] \<rparr>,
      \<lparr> pt_name = ''coding'', pt_status = 200, pt_latency_ms = 7, pt_rate_limit_headers = [],
         pt_answer = ''Five minutes; s[::-1]; CLOSE_POPUP'', pt_error_snippet = [] \<rparr>,
      \<lparr> pt_name = ''axui'', pt_status = 200, pt_latency_ms = 7, pt_rate_limit_headers = [],
         pt_answer = ''Five minutes; s[::-1]; CLOSE_POPUP'', pt_error_snippet = [] \<rparr>]"
    by (simp only: full_suite sample_points)
  then have names: "map pt_name (prompt_tests ?q) = kPromptSuite"
    by (simp add: kPromptSuite_def)
  from inst have "graded ?q"
    by blast
  with names have "scored ?q"
    by (simp only: graded_def if_True)
  then have "score_reasoning ?q = 1 \<and> score_coding ?q = 1 \<and> score_axui ?q = 1 \<and> score_total ?q = 3"
    unfolding scored_def suite by (simp add: answer_to_def sample_points)
  with names have second:
    "let e = ?e; q = fst (AuditOpenAICompatible e ''p'' ''P'' ''sk'' ''lu'' ''cu'' [] (push_log e) fresh_state)
     in map pt_name (prompt_tests q) = kPromptSuite \<and>
        score_reasoning q = 1 \<and> score_coding q = 1 \<and> score_axui q = 1 \<and> score_total q = 3"
    unfolding Let_def by (intro conjI) blast+
  from first second show ?thesis by (intro conjI)
qed

text \<open>
  Where the code leaves the wording of C6.  One model is discovered and works, the
  reasoning prompt is answered with \<open>Five minutes.\<close>, and the flag is set before the
  coding prompt: the adapter returns from inside the prompt suite.  The provider it
  returns holds a reasoning answer that earns a point, and its scores are all zero:
  the scorer was not applied to it.
\<close>

theorem ScoreProvider_counterexample:
  "(let e = env_answers (\<lambda>k. 1 < k) ''Five minutes.'';
        q = fst (AuditOpenAICompatible e ''p'' ''P'' ''sk'' ''lu'' ''cu'' [] (push_log e) fresh_state)
    in map pt_name (prompt_tests q) = [''reasoning''] \<and>
       answer_to (prompt_tests q) ''reasoning'' = ''five minutes.'' \<and>
       reasoning_points (answer_to (prompt_tests q) ''reasoning'') = 1 \<and>
       score_reasoning q = 0 \<and> score_total q = 0)"
proof -
  let ?e = "env_answers (\<lambda>k. 1 < k) ''Five minutes.''"
  let ?q = "fst (AuditOpenAICompatible ?e ''p'' ''P'' ''sk'' ''lu'' ''cu'' [] (push_log ?e) fresh_state)"
  from stopped_in_suite have ts: "prompt_tests ?q =
      [\<lparr> pt_name = ''reasoning'', pt_status = 200, pt_latency_ms = 7, pt_rate_limit_headers = [],
          pt_answer = ''Five minutes.'', pt_error_snippet = [] \<rparr>]"
    and sc: "score_reasoning ?q = 0" "score_total ?q = 0"
    by (simp_all add: marks_def)
  have low: "ToLower ''Five minutes.'' = ''five minutes.''"
    by code_simp
  have ans: "answer_to (prompt_tests ?q) ''reasoning'' = ''five minutes.''"
    unfolding ts by (simp add: answer_to_def low)
  have pts: "reasoning_points (answer_to (prompt_tests ?q) ''reasoning'') = 1"
    unfolding ans using sample_points(5) by (simp only: low)
  from ts ans pts sc show ?thesis
    unfolding Let_def by (intro conjI) simp_all
qed

end
